theory Spec2Isabelle
  imports Main "HOL-Library.Char_ord" "HOL-Library.List_Lexorder" "HOL-Library.AList"
begin

section \<open>Python strings\<close>

text \<open>
  A Python \<open>str\<close> is modelled as a \<open>string\<close>: a list of characters, each character being
  a code point in the range 0..255. The two character classes the program relies on are
  written out for that range: \<open>str.isspace\<close> (used by \<open>str.strip\<close> and by the regular
  expression escape \<open>\s\<close>) and the word characters of \<open>\w\<close> (alphanumeric code points and
  the underscore). Strings are compared as Python compares them, code point by code point
  (the lexicographic order on lists over the order on characters).
\<close>

definition isspace :: "char \<Rightarrow> bool" where
  "isspace c \<longleftrightarrow> (of_char c :: nat) \<in> {9, 10, 11, 12, 13, 28, 29, 30, 31, 32, 133, 160}"

definition isword :: "char \<Rightarrow> bool" where
  "isword c \<longleftrightarrow>
     (let n = (of_char c :: nat) in
        (48 \<le> n \<and> n \<le> 57) \<or> (65 \<le> n \<and> n \<le> 90) \<or> n = 95 \<or> (97 \<le> n \<and> n \<le> 122)
        \<or> n = 170 \<or> n = 178 \<or> n = 179 \<or> n = 181 \<or> n = 185 \<or> n = 186
        \<or> (188 \<le> n \<and> n \<le> 190) \<or> (192 \<le> n \<and> n \<le> 214) \<or> (216 \<le> n \<and> n \<le> 246)
        \<or> 248 \<le> n)"

text \<open>\<open>s.strip()\<close>: leading and trailing whitespace removed.\<close>

definition lstrip :: "string \<Rightarrow> string" where
  "lstrip s = dropWhile isspace s"

definition rstrip :: "string \<Rightarrow> string" where
  "rstrip s = rev (dropWhile isspace (rev s))"

definition strip :: "string \<Rightarrow> string" where
  "strip s = rstrip (lstrip s)"

text \<open>\<open>s.startswith(p)\<close>.\<close>

definition startswith :: "string \<Rightarrow> string \<Rightarrow> bool" where
  "startswith s p \<longleftrightarrow> take (length p) s = p"

text \<open>
  \<open>s.split(sep)\<close> for a nonempty separator: the string is scanned from the left, every
  occurrence of the separator found at the scanning position ends the current piece and
  is skipped. The program calls it with the separator \<open>->\<close> only.
\<close>

fun str_split :: "string \<Rightarrow> string \<Rightarrow> string list" where
  "str_split sep [] = [[]]"
| "str_split sep (c # cs) =
     (if sep \<noteq> [] \<and> startswith (c # cs) sep
      then [] # str_split sep (drop (length sep - 1) cs)
      else (case str_split sep cs of
              [] \<Rightarrow> [[c]]
            | p # ps \<Rightarrow> (c # p) # ps))"

text \<open>\<open>sep.join(xs)\<close>.\<close>

fun str_join :: "string \<Rightarrow> string list \<Rightarrow> string" where
  "str_join sep [] = []"
| "str_join sep [x] = x"
| "str_join sep (x # y # ys) = x @ sep @ str_join sep (y # ys)"

section \<open>Regular expressions\<close>

text \<open>
  The fragment of Python's \<open>re\<close> syntax that the program's three patterns use: a literal
  character, the classes \<open>\w\<close>, \<open>\s\<close> and \<open>.\<close> under the quantifiers \<open>*\<close>, \<open>+\<close>
  (greedy) and \<open>+?\<close> (lazy), concatenation and capturing groups. \<open>.\<close> matches every
  character but the newline.
\<close>

datatype cclass = Word | Space | Dot

fun in_class :: "cclass \<Rightarrow> char \<Rightarrow> bool" where
  "in_class Word c = isword c"
| "in_class Space c = isspace c"
| "in_class Dot c = (c \<noteq> CHR 0x0A)"

datatype regex =
    Eps
  | Lit char
  | Star cclass
  | Plus cclass
  | LazyPlus cclass
  | Seq regex regex
  | Group regex

text \<open>
  The matcher is a backtracking one, as Python's is. It returns every way of matching the
  pattern at the start of the input, as the list of the captured groups and the rest of the
  input, in the order in which a backtracking matcher tries them: a greedy quantifier tries
  the longest repetition first, a lazy one the shortest. \<open>re.match\<close> returns the first.
\<close>

fun greedy_star :: "(char \<Rightarrow> bool) \<Rightarrow> string \<Rightarrow> string list" where
  "greedy_star p [] = [[]]"
| "greedy_star p (c # cs) = (if p c then greedy_star p cs @ [c # cs] else [c # cs])"

fun lazy_star :: "(char \<Rightarrow> bool) \<Rightarrow> string \<Rightarrow> string list" where
  "lazy_star p [] = [[]]"
| "lazy_star p (c # cs) = (c # cs) # (if p c then lazy_star p cs else [])"

fun greedy_plus :: "(char \<Rightarrow> bool) \<Rightarrow> string \<Rightarrow> string list" where
  "greedy_plus p [] = []"
| "greedy_plus p (c # cs) = (if p c then greedy_star p cs else [])"

fun lazy_plus :: "(char \<Rightarrow> bool) \<Rightarrow> string \<Rightarrow> string list" where
  "lazy_plus p [] = []"
| "lazy_plus p (c # cs) = (if p c then lazy_star p cs else [])"

fun rmatch :: "regex \<Rightarrow> string \<Rightarrow> (string list \<times> string) list" where
  "rmatch Eps s = [([], s)]"
| "rmatch (Lit a) s = (case s of [] \<Rightarrow> [] | c # cs \<Rightarrow> if c = a then [([], cs)] else [])"
| "rmatch (Star k) s = map (Pair []) (greedy_star (in_class k) s)"
| "rmatch (Plus k) s = map (Pair []) (greedy_plus (in_class k) s)"
| "rmatch (LazyPlus k) s = map (Pair []) (lazy_plus (in_class k) s)"
| "rmatch (Seq r1 r2) s =
     concat (map (\<lambda>(g1, s1). map (\<lambda>(g2, s2). (g1 @ g2, s2)) (rmatch r2 s1)) (rmatch r1 s))"
| "rmatch (Group r) s =
     map (\<lambda>(g, s'). (take (length s - length s') s # g, s')) (rmatch r s)"

definition cat :: "regex list \<Rightarrow> regex" where
  "cat rs = foldr Seq rs Eps"

text \<open>\<open>re.match(pattern, s)\<close>: the groups of the first match at the start of \<open>s\<close>, if any.\<close>

definition re_match :: "regex \<Rightarrow> string \<Rightarrow> string list option" where
  "re_match r s = (case rmatch r s of [] \<Rightarrow> None | (g, rest) # _ \<Rightarrow> Some g)"

text \<open>
  \<open>re.split(pattern, s)\<close> for a pattern without groups that matches no empty string: the
  string is scanned from the left, the first match found at the scanning position ends
  the current piece and is skipped.
\<close>

function re_split :: "regex \<Rightarrow> string \<Rightarrow> string list" where
  "re_split r s =
     (case rmatch r s of
        (g, rest) # _ \<Rightarrow>
          (if length rest < length s then [] # re_split r rest
           else (case s of
                   [] \<Rightarrow> [[]]
                 | c # cs \<Rightarrow> (case re_split r cs of [] \<Rightarrow> [[c]] | p # ps \<Rightarrow> (c # p) # ps)))
      | [] \<Rightarrow>
          (case s of
             [] \<Rightarrow> [[]]
           | c # cs \<Rightarrow> (case re_split r cs of [] \<Rightarrow> [[c]] | p # ps \<Rightarrow> (c # p) # ps)))"
  by pat_completeness auto
termination
  by (relation "measure (\<lambda>(r, s). length s)") auto

declare re_split.simps [simp del]

section \<open>The converter\<close>

text \<open>
  Both failures of the parser are a Python \<open>ValueError\<close>, told apart by their message:
  the one raised by \<open>parse_swrl_rule\<close> is the malformed-rule error, the one raised by
  \<open>parse_atom\<close> is the unparsable-atom error. A failed \<open>open\<close> is an \<open>OSError\<close>.
\<close>

datatype error = ValueError string | OSError string

definition MalformedRuleError :: error where
  "MalformedRuleError = ValueError ''Invalid SWRL rule: missing '->' separator''"

definition UnparsableAtomError :: "string \<Rightarrow> error" where
  "UnparsableAtomError atom = ValueError (''Cannot parse atom: '' @ atom)"

subsection \<open>\<open>parse_swrl_rule\<close>\<close>

text \<open>The pattern \<open>\s*\^\s*\<close>.\<close>

definition caret_pattern :: regex where
  "caret_pattern = cat [Star Space, Lit CHR ''^'', Star Space]"

definition parse_swrl_rule :: "string \<Rightarrow> error + (string list \<times> string list)" where
  "parse_swrl_rule rule =
     (let parts = str_split ''->'' rule in
      if length parts \<noteq> 2 then Inl MalformedRuleError
      else
        let antecedent = strip (parts ! 0);
            consequent = strip (parts ! 1);
            antecedent_atoms = map strip (re_split caret_pattern antecedent);
            consequent_atoms = map strip (re_split caret_pattern consequent)
        in Inr (antecedent_atoms, consequent_atoms))"

subsection \<open>\<open>parse_atom\<close>\<close>

text \<open>
  The patterns \<open>(\w+):(\w+)\((\?\w+)\)\<close> and \<open>(\w+):(\w+)\((\?\w+),\s*(.+?)\)\<close>.
\<close>

definition class_pattern :: regex where
  "class_pattern =
     cat [Group (Plus Word), Lit CHR '':'', Group (Plus Word), Lit CHR ''('',
          Group (cat [Lit CHR ''?'', Plus Word]), Lit CHR '')'']"

definition property_pattern :: regex where
  "property_pattern =
     cat [Group (Plus Word), Lit CHR '':'', Group (Plus Word), Lit CHR ''('',
          Group (cat [Lit CHR ''?'', Plus Word]), Lit CHR '','', Star Space,
          Group (LazyPlus Dot), Lit CHR '')'']"

text \<open>The dictionary that \<open>parse_atom\<close> returns, tagged by its \<open>type\<close> entry.\<close>

datatype atom =
    ClassAtom (prefix: string) (class_name: string) (variable: string)
  | PropertyAtom (prefix: string) (property_name: string) (subject: string) (obj: string)

definition parse_atom :: "string \<Rightarrow> error + atom" where
  "parse_atom a =
     (case re_match class_pattern a of
        Some gs \<Rightarrow> Inr (ClassAtom (gs ! 0) (gs ! 1) (gs ! 2))
      | None \<Rightarrow>
          (case re_match property_pattern a of
             Some gs \<Rightarrow> Inr (PropertyAtom (gs ! 0) (gs ! 1) (gs ! 2) (strip (gs ! 3)))
           | None \<Rightarrow> Inl (UnparsableAtomError a)))"

subsection \<open>The converter's state\<close>

datatype part = Antecedent | Consequent

text \<open>The entries of \<open>self.classes[var]\<close> and of \<open>self.properties\<close>.\<close>

record cls_info =
  ci_class :: string
  ci_part :: part

record property =
  p_subject :: string
  p_predicate :: string
  p_object :: string
  p_part :: part

text \<open>
  The instance: \<open>variables\<close> is a Python set, \<open>classes\<close> a dictionary from a variable
  to the list of its class assertions (kept in insertion order, as Python keeps it),
  \<open>properties\<close> a list. \<open>atoms\<close> is set by \<open>__init__\<close> and never used again.
\<close>

record converter =
  variables :: "string set"
  classes :: "(string \<times> cls_info list) list"
  properties :: "property list"
  atoms :: "atom list"

definition init :: converter where
  "init = \<lparr>variables = {}, classes = [], properties = [], atoms = []\<rparr>"

definition reset :: "converter \<Rightarrow> converter" where
  "reset conv = conv\<lparr>variables := {}, classes := [], properties := []\<rparr>"

subsection \<open>\<open>_create_dot_graph\<close>\<close>

definition class_node :: "string \<Rightarrow> string" where
  \<open>class_node cls = ''    "'' @ cls @ ''" [shape=ellipse, fillcolor=lightgreen, style=filled];''\<close>

definition variable_node :: "string \<Rightarrow> string" where
  \<open>variable_node var =
     ''    "'' @ var @ ''" [label="'' @ var @ ''", fillcolor=lightblue, style="rounded,filled"];''\<close>

definition literal_node :: "string \<Rightarrow> string" where
  \<open>literal_node literal =
     ''    "'' @ literal @ ''" [shape=box, style=filled, fillcolor=lightyellow];''\<close>

definition type_edge :: "string \<Rightarrow> cls_info \<Rightarrow> string" where
  \<open>type_edge var cls_info =
     (let cls = ci_class cls_info; part = ci_part cls_info in
      if part = Consequent
      then ''    "'' @ cls @ ''" -> "'' @ var
             @ ''" [label="rdf:type", color=blue, penwidth=2, style=dashed];''
      else ''    "'' @ cls @ ''" -> "'' @ var @ ''" [label="rdf:type", style=dashed];'')\<close>

definition property_edge :: "property \<Rightarrow> string" where
  \<open>property_edge prop =
     (let subject = p_subject prop; predicate = p_predicate prop;
          obj = p_object prop; part = p_part prop in
      if part = Consequent
      then ''    "'' @ subject @ ''" -> "'' @ obj @ ''" [label="'' @ predicate
             @ ''", color=blue, penwidth=2];''
      else ''    "'' @ subject @ ''" -> "'' @ obj @ ''" [label="'' @ predicate @ ''"];'')\<close>

definition all_classes :: "converter \<Rightarrow> string set" where
  "all_classes conv =
     set (concat (map (\<lambda>(var, class_list). map ci_class class_list) (classes conv)))"

definition literals :: "converter \<Rightarrow> string set" where
  "literals conv =
     set (map p_object (filter (\<lambda>prop. \<not> startswith (p_object prop) ''?'') (properties conv)))"

definition type_edges :: "converter \<Rightarrow> string list" where
  "type_edges conv =
     concat (map (\<lambda>var. case map_of (classes conv) var of
                           None \<Rightarrow> []
                         | Some class_list \<Rightarrow> map (type_edge var) class_list)
                 (sorted_list_of_set (variables conv)))"

text \<open>The list \<open>lines\<close> that \<open>_create_dot_graph\<close> builds, and its result.\<close>

definition create_dot_lines :: "converter \<Rightarrow> string list" where
  "create_dot_lines conv =
     [''digraph SWRL_Rule {'', ''    rankdir=LR;'', ''    node [shape=box, style=rounded];'', []]
     @ [''    // Classes'']
     @ map class_node (sorted_list_of_set (all_classes conv))
     @ [[]]
     @ [''    // Variables (Instances)'']
     @ map variable_node (sorted_list_of_set (variables conv))
     @ [[]]
     @ [''    // Literals'']
     @ map literal_node (sorted_list_of_set (literals conv))
     @ [[]]
     @ [''    // Class Assertions (rdf:type)'']
     @ type_edges conv
     @ [[]]
     @ [''    // Properties'']
     @ map property_edge (properties conv)
     @ [''}'']"

definition create_dot_graph :: "converter \<Rightarrow> string" where
  "create_dot_graph conv = str_join [CHR 0x0A] (create_dot_lines conv)"

subsection \<open>\<open>generate_dot\<close>\<close>

text \<open>The first loops: every atom is parsed in turn, the first failure ends the call.\<close>

fun parse_atoms :: "part \<Rightarrow> string list \<Rightarrow> error + (atom \<times> part) list" where
  "parse_atoms pt [] = Inr []"
| "parse_atoms pt (a # as) =
     (case parse_atom a of
        Inl e \<Rightarrow> Inl e
      | Inr parsed \<Rightarrow>
          (case parse_atoms pt as of
             Inl e \<Rightarrow> Inl e
           | Inr rest \<Rightarrow> Inr ((parsed, pt) # rest)))"

text \<open>The body of the loop that fills the collections.\<close>

fun extract_atom :: "converter \<Rightarrow> atom \<times> part \<Rightarrow> converter" where
  "extract_atom conv (ClassAtom pre cn var, pt) =
     conv\<lparr>variables := insert var (variables conv),
          classes :=
            (let cl = (if var \<notin> fst ` set (classes conv)
                       then AList.update var [] (classes conv) else classes conv)
             in AList.update var
                  (the (map_of cl var) @ [\<lparr>ci_class = pre @ '':'' @ cn, ci_part = pt\<rparr>]) cl)\<rparr>"
| "extract_atom conv (PropertyAtom pre pn subj ob, pt) =
     conv\<lparr>variables :=
            (if startswith ob ''?'' then insert ob (insert subj (variables conv))
             else insert subj (variables conv)),
          properties :=
            properties conv
            @ [\<lparr>p_subject = subj, p_predicate = pre @ '':'' @ pn, p_object = ob, p_part = pt\<rparr>]\<rparr>"

text \<open>
  The file system and the console, as far as the program touches them:
  \<open>with open(path, 'w') as f: f.write(text)\<close> either fails with an \<open>OSError\<close>, or
  replaces the content of the file; \<open>print\<close> appends a line to the console.
\<close>

record world =
  files :: "string \<Rightarrow> string option"
  unwritable :: "string set"
  stdout :: "string list"

definition write_file :: "world \<Rightarrow> string \<Rightarrow> string \<Rightarrow> error + world" where
  "write_file w path text =
     (if path \<in> unwritable w then Inl (OSError path)
      else Inr (w\<lparr>files := (files w)(path \<mapsto> text)\<rparr>))"

definition print :: "world \<Rightarrow> string \<Rightarrow> world" where
  "print w line = w\<lparr>stdout := stdout w @ [line]\<rparr>"

text \<open>
  \<open>generate_dot\<close> on an instance, in a world: its result (the exception raised, or the
  value returned), the instance and the world afterwards. \<open>output_file\<close> is \<open>None\<close> or
  a string; \<open>if output_file\<close> holds for a nonempty string.
\<close>

definition generate_dot ::
  "converter \<Rightarrow> world \<Rightarrow> string \<Rightarrow> string option \<Rightarrow> (error + string) \<times> converter \<times> world"
where
  "generate_dot self w rule output_file =
     (let self = reset self in
      case parse_swrl_rule rule of
        Inl e \<Rightarrow> (Inl e, self, w)
      | Inr (antecedent_atoms, consequent_atoms) \<Rightarrow>
          (case parse_atoms Antecedent antecedent_atoms of
             Inl e \<Rightarrow> (Inl e, self, w)
           | Inr ante \<Rightarrow>
               (case parse_atoms Consequent consequent_atoms of
                  Inl e \<Rightarrow> (Inl e, self, w)
                | Inr cons \<Rightarrow>
                    (let all_atoms = ante @ cons;
                         self = foldl extract_atom self all_atoms;
                         dot = create_dot_graph self
                     in case output_file of
                          None \<Rightarrow> (Inr dot, self, w)
                        | Some path \<Rightarrow>
                            (if path = [] then (Inr dot, self, w)
                             else
                               (case write_file w path dot of
                                  Inl e \<Rightarrow> (Inl e, self, w)
                                | Inr w' \<Rightarrow>
                                    (Inr dot, self, print w' (''DOT file saved to: '' @ path))))))))"

text \<open>\<open>swrl_to_dot\<close>: a fresh instance for every call.\<close>

definition swrl_to_dot :: "world \<Rightarrow> string \<Rightarrow> string option \<Rightarrow> (error + string) \<times> world" where
  "swrl_to_dot w swrl_rule output_file =
     (case generate_dot init w swrl_rule output_file of (r, conv, w') \<Rightarrow> (r, w'))"

section \<open>The surface grammar of atoms\<close>

text \<open>
  The two forms of atom that the specification recognises, as strings:
  \<open>prefix:ClassName(?var)\<close> and \<open>prefix:propertyName(?subjectVar, object)\<close>, the names
  being nonempty runs of word characters. An object token is a nonempty text that starts
  with no whitespace and holds neither a close-parenthesis nor a newline.
\<close>

definition word_token :: "string \<Rightarrow> bool" where
  "word_token w \<longleftrightarrow> w \<noteq> [] \<and> (\<forall>c\<in>set w. isword c)"

definition object_token :: "string \<Rightarrow> bool" where
  "object_token ob \<longleftrightarrow>
     ob \<noteq> [] \<and> \<not> isspace (hd ob) \<and> CHR '')'' \<notin> set ob \<and> CHR 0x0A \<notin> set ob"

definition class_atom_form :: "string \<Rightarrow> string \<Rightarrow> string \<Rightarrow> string" where
  "class_atom_form w1 w2 w3 = w1 @ '':'' @ w2 @ ''(?'' @ w3 @ '')''"

definition property_atom_form :: "string \<Rightarrow> string \<Rightarrow> string \<Rightarrow> string \<Rightarrow> string \<Rightarrow> string" where
  "property_atom_form w1 w2 w3 ws ob = w1 @ '':'' @ w2 @ ''(?'' @ w3 @ '','' @ ws @ ob @ '')''"

section \<open>The rule splitter, in the words of the specification\<close>

text \<open>
  The number of occurrences of a separator in a string: the number of positions at which
  the separator starts.
\<close>

fun occurrences :: "string \<Rightarrow> string \<Rightarrow> nat" where
  "occurrences sep [] = 0"
| "occurrences sep (c # cs) = (if startswith (c # cs) sep then 1 else 0) + occurrences sep cs"

text \<open>A string trimmed of its surrounding whitespace.\<close>

definition trim :: "string \<Rightarrow> string" where
  "trim s = (let t = dropWhile isspace s in rev (dropWhile isspace (rev t)))"

text \<open>The pieces of a string between the occurrences of one character, in order.\<close>

fun split_char :: "char \<Rightarrow> string \<Rightarrow> string list" where
  "split_char d [] = [[]]"
| "split_char d (c # cs) =
     (if c = d then [] # split_char d cs
      else (case split_char d cs of
              [] \<Rightarrow> [[c]]
            | p # ps \<Rightarrow> (c # p) # ps))"

section \<open>The emitted graph, in the words of the specification\<close>

text \<open>
  What the specification asks of the DOT text, as a function of the list of the classified
  atoms (antecedent atoms first, each with its part): the fully-qualified class names, the
  variables and the literals that the atoms mention, and the statements, line by line.
\<close>

fun class_names_of :: "atom \<times> part \<Rightarrow> string list" where
  "class_names_of (ClassAtom p n v, pt) = [p @ '':'' @ n]"
| "class_names_of (PropertyAtom p n s ob, pt) = []"

fun variables_of :: "atom \<times> part \<Rightarrow> string list" where
  "variables_of (ClassAtom p n v, pt) = [v]"
| "variables_of (PropertyAtom p n s ob, pt) = (if take 1 ob = ''?'' then [s, ob] else [s])"

fun literals_of :: "atom \<times> part \<Rightarrow> string list" where
  "literals_of (ClassAtom p n v, pt) = []"
| "literals_of (PropertyAtom p n s ob, pt) = (if take 1 ob = ''?'' then [] else [ob])"

definition class_node_line :: "string \<Rightarrow> string" where
  \<open>class_node_line c = ''    "'' @ c @ ''" [shape=ellipse, fillcolor=lightgreen, style=filled];''\<close>

definition variable_node_line :: "string \<Rightarrow> string" where
  \<open>variable_node_line v =
     ''    "'' @ v @ ''" [label="'' @ v @ ''", fillcolor=lightblue, style="rounded,filled"];''\<close>

definition literal_node_line :: "string \<Rightarrow> string" where
  \<open>literal_node_line l = ''    "'' @ l @ ''" [shape=box, style=filled, fillcolor=lightyellow];''\<close>

text \<open>The rdf:type edge from a class to a variable, in the style of its part.\<close>

fun type_edge_line :: "string \<Rightarrow> string \<Rightarrow> part \<Rightarrow> string" where
  \<open>type_edge_line c v Antecedent =
     ''    "'' @ c @ ''" -> "'' @ v @ ''" [label="rdf:type", style=dashed];''\<close>
| \<open>type_edge_line c v Consequent =
     ''    "'' @ c @ ''" -> "'' @ v @ ''" [label="rdf:type", color=blue, penwidth=2, style=dashed];''\<close>

text \<open>The edge of a property relation, in the style of its part.\<close>

fun property_edge_line :: "string \<Rightarrow> string \<Rightarrow> string \<Rightarrow> part \<Rightarrow> string" where
  \<open>property_edge_line s ob p Antecedent =
     ''    "'' @ s @ ''" -> "'' @ ob @ ''" [label="'' @ p @ ''"];''\<close>
| \<open>property_edge_line s ob p Consequent =
     ''    "'' @ s @ ''" -> "'' @ ob @ ''" [label="'' @ p @ ''", color=blue, penwidth=2];''\<close>

text \<open>The rdf:type edges of one variable, and the property edge of an atom.\<close>

fun type_edges_of :: "string \<Rightarrow> atom \<times> part \<Rightarrow> string list" where
  "type_edges_of v (ClassAtom p n v', pt) =
     (if v' = v then [type_edge_line (p @ '':'' @ n) v pt] else [])"
| "type_edges_of v (PropertyAtom p n s ob, pt) = []"

fun property_edges_of :: "atom \<times> part \<Rightarrow> string list" where
  "property_edges_of (ClassAtom p n v, pt) = []"
| "property_edges_of (PropertyAtom p n s ob, pt) = [property_edge_line s ob (p @ '':'' @ n) pt]"

definition class_nodes_of :: "(atom \<times> part) list \<Rightarrow> string list" where
  "class_nodes_of ats =
     map class_node_line (sorted_list_of_set (set (concat (map class_names_of ats))))"

definition variable_nodes_of :: "(atom \<times> part) list \<Rightarrow> string list" where
  "variable_nodes_of ats =
     map variable_node_line (sorted_list_of_set (set (concat (map variables_of ats))))"

definition literal_nodes_of :: "(atom \<times> part) list \<Rightarrow> string list" where
  "literal_nodes_of ats =
     map literal_node_line (sorted_list_of_set (set (concat (map literals_of ats))))"

definition type_edge_lines_of :: "(atom \<times> part) list \<Rightarrow> string list" where
  "type_edge_lines_of ats =
     concat (map (\<lambda>v. concat (map (type_edges_of v) ats))
                 (sorted_list_of_set (set (concat (map variables_of ats)))))"

definition property_edge_lines_of :: "(atom \<times> part) list \<Rightarrow> string list" where
  "property_edge_lines_of ats = concat (map property_edges_of ats)"

definition dot_lines_of :: "(atom \<times> part) list \<Rightarrow> string list" where
  "dot_lines_of ats =
     [''digraph SWRL_Rule {'', ''    rankdir=LR;'', ''    node [shape=box, style=rounded];'', [],
      ''    // Classes'']
     @ class_nodes_of ats
     @ [[], ''    // Variables (Instances)'']
     @ variable_nodes_of ats
     @ [[], ''    // Literals'']
     @ literal_nodes_of ats
     @ [[], ''    // Class Assertions (rdf:type)'']
     @ type_edge_lines_of ats
     @ [[], ''    // Properties'']
     @ property_edge_lines_of ats
     @ [''}'']"

text \<open>The lines of a text: its pieces between the newlines.\<close>

definition lines_of :: "string \<Rightarrow> string list" where
  "lines_of text = split_char CHR 0x0A text"

text \<open>The atoms of a rule, classified and tagged, when the rule converts.\<close>

definition atoms_of_rule :: "string \<Rightarrow> (atom \<times> part) list option" where
  "atoms_of_rule rule =
     (case parse_swrl_rule rule of
        Inl e \<Rightarrow> None
      | Inr (ants, cons) \<Rightarrow>
          (case (parse_atoms Antecedent ants, parse_atoms Consequent cons) of
             (Inr a, Inr c) \<Rightarrow> Some (a @ c)
           | _ \<Rightarrow> None))"

section \<open>The matcher on the two atom patterns\<close>

lemma in_class_eq: "in_class Word = isword" "in_class Space = isspace" "in_class Dot = (\<lambda>c. c \<noteq> CHR 0x0A)"
  by (rule ext, simp)+

lemma greedy_star_ne: "greedy_star p s \<noteq> []"
  by (induction s) auto

lemma greedy_star_stop: "s = [] \<or> \<not> p (hd s) \<Longrightarrow> greedy_star p s = [s]"
  by (cases s) auto

lemma greedy_star_skip:
  assumes "\<And>c x. p c \<Longrightarrow> K (c # x) = []" and "\<forall>c\<in>set u. p c"
  shows "concat (map K (greedy_star p (u @ s))) = concat (map K (greedy_star p s))"
  using assms(2) by (induction u) (auto simp: assms(1))

lemma greedy_plus_skip:
  assumes "\<And>c x. p c \<Longrightarrow> K (c # x) = []" and "\<forall>c\<in>set u. p c" and "u \<noteq> []"
  shows "concat (map K (greedy_plus p (u @ s))) = concat (map K (greedy_star p s))"
proof (cases u)
  case Nil with assms(3) show ?thesis by simp
next
  case (Cons c u')
  with assms(2) have "p c" "\<forall>c\<in>set u'. p c" by auto
  then show ?thesis using Cons greedy_star_skip[of p K u' s] assms(1) by simp
qed

lemma lazy_star_skip:
  assumes "\<And>x. \<forall>c\<in>set u. K (c # x) = []" and "\<forall>c\<in>set u. p c"
  shows "concat (map K (lazy_star p (u @ s))) = concat (map K (lazy_star p s))"
  using assms by (induction u) auto

lemma rmatch_Seq_Group_Plus:
  "rmatch (Seq (Group (Plus k)) r2) s =
     concat (map (\<lambda>s'. map (\<lambda>(g2, s2). (take (length s - length s') s # g2, s2)) (rmatch r2 s'))
       (greedy_plus (in_class k) s))"
  by (simp add: map_concat comp_def case_prod_beta)

lemma rmatch_Lit_Cons: "rmatch (Seq (Lit a) R) (c # x) = (if c = a then rmatch R x else [])"
  by (simp add: case_prod_beta)

lemma rmatch_Lit_Nil: "rmatch (Seq (Lit a) R) [] = []"
  by simp

lemma greedy_plus_then_lit:
  assumes "w \<noteq> []" "\<forall>c\<in>set w. isword c" "\<not> isword a" "\<not> isword b"
  shows "concat (map (\<lambda>s'. map (\<lambda>(g2, s2). (F s' # g2, s2)) (rmatch (Seq (Lit a) R) s'))
                  (greedy_plus isword (w @ b # t))) =
           (if b = a then map (\<lambda>(g, s). (F (b # t) # g, s)) (rmatch R t) else [])"
proof -
  let ?K = "\<lambda>s'. map (\<lambda>(g2, s2). (F s' # g2, s2)) (rmatch (Seq (Lit a) R) s')"
  have K: "\<And>c x. isword c \<Longrightarrow> ?K (c # x) = []"
    using assms(3) by (auto simp: rmatch_Lit_Cons simp del: rmatch.simps)
  have "concat (map ?K (greedy_plus isword (w @ b # t))) = concat (map ?K (greedy_star isword (b # t)))"
    using greedy_plus_skip[of isword ?K w "b # t"] K assms(1,2) by blast
  also have "\<dots> = ?K (b # t)"
    using assms(4) by simp
  also have "\<dots> = (if b = a then map (\<lambda>(g, s). (F (b # t) # g, s)) (rmatch R t) else [])"
    by (simp add: rmatch_Lit_Cons del: rmatch.simps)
  finally show ?thesis .
qed

lemma rmatch_word_then_lit:
  assumes "w \<noteq> []" "\<forall>c\<in>set w. isword c" "\<not> isword a" "\<not> isword b"
  shows "rmatch (Seq (Group (Plus Word)) (Seq (Lit a) R)) (w @ b # t) =
           (if b = a then map (\<lambda>(g, s). (w # g, s)) (rmatch R t) else [])"
  using greedy_plus_then_lit[OF assms, of "\<lambda>s'. take (length (w @ b # t) - length s') (w @ b # t)" R t]
  by (simp only: rmatch_Seq_Group_Plus in_class_eq) simp

lemma rmatch_Seq_Group_var:
  "rmatch (Seq (Group (Seq (Lit q) (Seq (Plus k) Eps))) r2) (q # x) =
     concat (map (\<lambda>s'. map (\<lambda>(g2, s2). (take (Suc (length x) - length s') (q # x) # g2, s2)) (rmatch r2 s'))
       (greedy_plus (in_class k) x))"
  by (simp add: map_concat comp_def case_prod_beta)

lemma rmatch_var_then_lit:
  assumes "w \<noteq> []" "\<forall>c\<in>set w. isword c" "\<not> isword a" "\<not> isword b"
  shows "rmatch (Seq (Group (Seq (Lit q) (Seq (Plus Word) Eps))) (Seq (Lit a) R)) (q # w @ b # t) =
           (if b = a then map (\<lambda>(g, s). ((q # w) # g, s)) (rmatch R t) else [])"
  using greedy_plus_then_lit[OF assms, of "\<lambda>s'. take (Suc (length (w @ b # t)) - length s') (q # w @ b # t)" R t]
  by (simp only: rmatch_Seq_Group_var in_class_eq) simp

lemma not_word_chars: "\<not> isword CHR '':''" "\<not> isword CHR ''(''" "\<not> isword CHR '')''" "\<not> isword CHR '',''" "\<not> isword CHR ''?''"
  by (simp_all add: isword_def)

lemma rmatch_class_pattern:
  assumes "word_token w1" "word_token w2" "word_token w3" "\<not> isword b"
  shows "rmatch class_pattern (w1 @ '':'' @ w2 @ ''(?'' @ w3 @ b # t) =
           (if b = CHR '')'' then [([w1, w2, ''?'' @ w3], t)] else [])"
  using assms unfolding class_pattern_def cat_def word_token_def
  by (simp add: rmatch_word_then_lit rmatch_var_then_lit rmatch_Lit_Cons not_word_chars del: rmatch.simps)
    (simp)


lemma greedy_star_first:
  assumes "\<forall>c\<in>set ws. p c" "x = [] \<or> \<not> p (hd x)"
  shows "\<exists>ys. greedy_star p (ws @ x) = x # ys"
  using assms(1) greedy_star_stop[of x p] assms(2) by (induction ws) auto

lemma rmatch_Seq_Star:
  "rmatch (Seq (Star k) r2) s = concat (map (rmatch r2) (greedy_star (in_class k) s))"
  by (simp add: map_concat comp_def case_prod_beta)

lemma rmatch_Seq_Group_LazyPlus:
  "rmatch (Seq (Group (LazyPlus k)) r2) s =
     concat (map (\<lambda>s'. map (\<lambda>(g2, s2). (take (length s - length s') s # g2, s2)) (rmatch r2 s'))
       (lazy_plus (in_class k) s))"
  by (simp add: map_concat comp_def case_prod_beta)

lemma lazy_object:
  assumes "ob \<noteq> []" "CHR '')'' \<notin> set ob" "CHR 0x0A \<notin> set ob"
  shows "\<exists>ys. rmatch (Seq (Group (LazyPlus Dot)) (Seq (Lit CHR '')'') Eps)) (ob @ CHR '')'' # t)
            = ([ob], t) # ys"
proof -
  obtain c ob' where ob: "ob = c # ob'" using assms(1) by (cases ob) auto
  let ?s = "ob @ CHR '')'' # t"
  let ?p = "\<lambda>c. c \<noteq> CHR 0x0A"
  let ?K = "\<lambda>s'. map (\<lambda>(g2, s2). (take (length ?s - length s') ?s # g2, s2))
                    (rmatch (Seq (Lit CHR '')'') Eps) s')"
  have K: "\<And>x. \<forall>c\<in>set ob'. ?K (c # x) = []"
    using assms(2) ob by (auto simp: rmatch_Lit_Cons simp del: rmatch.simps)
  have p: "\<forall>c\<in>set ob'. ?p c" "?p c"
    using assms(3) ob by auto
  have "rmatch (Seq (Group (LazyPlus Dot)) (Seq (Lit CHR '')'') Eps)) ?s
          = concat (map ?K (lazy_plus ?p ?s))"
    by (simp only: rmatch_Seq_Group_LazyPlus in_class_eq)
  also have "\<dots> = concat (map ?K (lazy_star ?p (ob' @ CHR '')'' # t)))"
    using p(2) ob by simp
  also have "\<dots> = concat (map ?K (lazy_star ?p (CHR '')'' # t)))"
    using lazy_star_skip[of ob' ?K ?p "CHR '')'' # t"] K p(1) by blast
  also have "\<dots> = ([ob], t) # concat (map ?K (lazy_star ?p t))"
    by simp
  finally show ?thesis by blast
qed

lemma rmatch_object:
  assumes "\<forall>c\<in>set ws. isspace c" "ob \<noteq> []" "\<not> isspace (hd ob)"
    "CHR '')'' \<notin> set ob" "CHR 0x0A \<notin> set ob"
  shows "\<exists>ys. rmatch (Seq (Star Space) (Seq (Group (LazyPlus Dot)) (Seq (Lit CHR '')'') Eps)))
              (ws @ ob @ CHR '')'' # t) = ([ob], t) # ys"
proof -
  let ?x = "ob @ CHR '')'' # t"
  have "?x = [] \<or> \<not> isspace (hd ?x)" using assms(2,3) by simp
  from greedy_star_first[OF assms(1) this]
  obtain ys where "greedy_star isspace (ws @ ?x) = ?x # ys" by blast
  moreover obtain zs where
    "rmatch (Seq (Group (LazyPlus Dot)) (Seq (Lit CHR '')'') Eps)) ?x = ([ob], t) # zs"
    using lazy_object[OF assms(2,4,5)] by blast
  ultimately show ?thesis
    by (simp only: rmatch_Seq_Star in_class_eq) simp
qed

lemma rmatch_property_pattern_head:
  assumes "word_token w1" "word_token w2" "word_token w3"
  shows "rmatch property_pattern (w1 @ '':'' @ w2 @ ''(?'' @ w3 @ '','' @ r) =
           map (\<lambda>(g, s). (w1 # w2 # (''?'' @ w3) # g, s))
             (rmatch (Seq (Star Space) (Seq (Group (LazyPlus Dot)) (Seq (Lit CHR '')'') Eps))) r)"
  using assms unfolding property_pattern_def cat_def word_token_def
  by (simp add: rmatch_word_then_lit rmatch_var_then_lit rmatch_Lit_Cons not_word_chars
        del: rmatch.simps) (simp add: comp_def case_prod_beta)

lemma re_match_property_pattern:
  assumes "word_token w1" "word_token w2" "word_token w3"
    "\<forall>c\<in>set ws. isspace c" "ob \<noteq> []" "\<not> isspace (hd ob)"
    "CHR '')'' \<notin> set ob" "CHR 0x0A \<notin> set ob"
  shows "re_match property_pattern (w1 @ '':'' @ w2 @ ''(?'' @ w3 @ '','' @ ws @ ob @ '')'' @ t)
           = Some [w1, w2, ''?'' @ w3, ob]"
proof -
  obtain ys where
    "rmatch (Seq (Star Space) (Seq (Group (LazyPlus Dot)) (Seq (Lit CHR '')'') Eps)))
              (ws @ ob @ CHR '')'' # t) = ([ob], t) # ys"
    using rmatch_object[OF assms(4-8)] by blast
  then show ?thesis
    unfolding re_match_def
    using rmatch_property_pattern_head[OF assms(1-3), of "ws @ ob @ '')'' @ t"] by simp
qed

lemma re_match_class_pattern:
  assumes "word_token w1" "word_token w2" "word_token w3"
  shows "re_match class_pattern (w1 @ '':'' @ w2 @ ''(?'' @ w3 @ '')'' @ t) = Some [w1, w2, ''?'' @ w3]"
  unfolding re_match_def using rmatch_class_pattern[OF assms not_word_chars(3), of t] by simp

lemma re_match_class_pattern_comma:
  assumes "word_token w1" "word_token w2" "word_token w3"
  shows "re_match class_pattern (w1 @ '':'' @ w2 @ ''(?'' @ w3 @ '','' @ r) = None"
  unfolding re_match_def using rmatch_class_pattern[OF assms not_word_chars(4), of r] by simp

lemma parse_atom_class_form:
  assumes "word_token w1" "word_token w2" "word_token w3"
  shows "parse_atom (w1 @ '':'' @ w2 @ ''(?'' @ w3 @ '')'' @ t) = Inr (ClassAtom w1 w2 (''?'' @ w3))"
  using re_match_class_pattern[OF assms, of t] unfolding parse_atom_def by simp

lemma parse_atom_property_form:
  assumes "word_token w1" "word_token w2" "word_token w3"
    "\<forall>c\<in>set ws. isspace c" "ob \<noteq> []" "\<not> isspace (hd ob)"
    "CHR '')'' \<notin> set ob" "CHR 0x0A \<notin> set ob"
  shows "parse_atom (w1 @ '':'' @ w2 @ ''(?'' @ w3 @ '','' @ ws @ ob @ '')'' @ t)
           = Inr (PropertyAtom w1 w2 (''?'' @ w3) (rstrip ob))"
proof -
  have "strip ob = rstrip ob" using assms(5,6) by (cases ob) (auto simp: strip_def lstrip_def)
  then show ?thesis
    using re_match_class_pattern_comma[OF assms(1-3), of "ws @ ob @ '')'' @ t"]
      re_match_property_pattern[OF assms, of t]
    unfolding parse_atom_def by simp
qed

section \<open>Every match of the two atom patterns\<close>

lemma set_greedy_star: "set (greedy_star p s) = {s'. \<exists>u. s = u @ s' \<and> (\<forall>c\<in>set u. p c)}"
proof (induction s)
  case Nil then show ?case by auto
next
  case (Cons c s)
  show ?case
  proof (intro set_eqI iffI)
    fix x assume "x \<in> set (greedy_star p (c # s))"
    then consider "x = c # s" | "p c" "x \<in> set (greedy_star p s)" by (auto split: if_splits)
    then show "x \<in> {s'. \<exists>u. c # s = u @ s' \<and> (\<forall>c\<in>set u. p c)}"
    proof cases
      case 1 then show ?thesis by auto
    next
      case 2
      then obtain u where "s = u @ x" "\<forall>c\<in>set u. p c" using Cons.IH by auto
      then have "c # s = (c # u) @ x \<and> (\<forall>d\<in>set (c # u). p d)" using 2(1) by simp
      then show ?thesis by blast
    qed
  next
    fix x assume "x \<in> {s'. \<exists>u. c # s = u @ s' \<and> (\<forall>c\<in>set u. p c)}"
    then obtain u where u: "c # s = u @ x" "\<forall>c\<in>set u. p c" by auto
    show "x \<in> set (greedy_star p (c # s))"
    proof (cases u)
      case Nil then show ?thesis using u by auto
    next
      case (Cons d u')
      then have "p c" "s = u' @ x" "\<forall>c\<in>set u'. p c" using u by auto
      then have "x \<in> set (greedy_star p s)" using Cons.IH by auto
      then show ?thesis using \<open>p c\<close> by simp
    qed
  qed
qed

lemma set_lazy_star: "set (lazy_star p s) = set (greedy_star p s)"
  by (induction s) auto

lemma set_greedy_plus:
  "set (greedy_plus p s) = {s'. \<exists>u. u \<noteq> [] \<and> s = u @ s' \<and> (\<forall>c\<in>set u. p c)}"
proof (cases s)
  case Nil then show ?thesis by auto
next
  case (Cons c cs)
  show ?thesis
  proof (intro set_eqI iffI)
    fix x assume "x \<in> set (greedy_plus p s)"
    then have "p c" "x \<in> set (greedy_star p cs)" using Cons by (auto split: if_splits)
    then obtain u where "cs = u @ x" "\<forall>c\<in>set u. p c" by (auto simp: set_greedy_star)
    then have "c # u \<noteq> [] \<and> s = (c # u) @ x \<and> (\<forall>d\<in>set (c # u). p d)" using Cons \<open>p c\<close> by simp
    then show "x \<in> {s'. \<exists>u. u \<noteq> [] \<and> s = u @ s' \<and> (\<forall>c\<in>set u. p c)}" by blast
  next
    fix x assume "x \<in> {s'. \<exists>u. u \<noteq> [] \<and> s = u @ s' \<and> (\<forall>c\<in>set u. p c)}"
    then obtain u where u: "u \<noteq> []" "s = u @ x" "\<forall>c\<in>set u. p c" by auto
    then obtain d u' where "u = d # u'" by (cases u) auto
    then have "p c" "cs = u' @ x" "\<forall>c\<in>set u'. p c" using u Cons by auto
    then show "x \<in> set (greedy_plus p s)" using Cons by (auto simp: set_greedy_star)
  qed
qed

lemma set_lazy_plus: "set (lazy_plus p s) = set (greedy_plus p s)"
  by (cases s) (auto simp: set_lazy_star)

lemma set_rmatch_Seq:
  "set (rmatch (Seq r1 r2) s) =
     {(g1 @ g2, s2) | g1 g2 s1 s2. (g1, s1) \<in> set (rmatch r1 s) \<and> (g2, s2) \<in> set (rmatch r2 s1)}"
  by (auto simp: image_iff) force+

lemma rmatch_suffix: "(g, s') \<in> set (rmatch r s) \<Longrightarrow> \<exists>u. s = u @ s'"
proof (induction r arbitrary: g s s')
  case (Seq r1 r2)
  then obtain g1 g2 s1 where "(g1, s1) \<in> set (rmatch r1 s)" "(g2, s') \<in> set (rmatch r2 s1)"
    unfolding set_rmatch_Seq by blast
  then obtain u v where "s = u @ s1" "s1 = v @ s'" using Seq.IH by blast
  then have "s = (u @ v) @ s'" by simp
  then show ?case by blast
next
  case (Lit a) then show ?case by (cases s) (auto split: if_splits)
qed (auto simp: set_greedy_star set_greedy_plus set_lazy_plus)

lemma rmatch_append: "(g, s') \<in> set (rmatch r s) \<Longrightarrow> (g, s' @ t) \<in> set (rmatch r (s @ t))"
proof (induction r arbitrary: g s s')
  case (Seq r1 r2)
  then obtain g1 g2 s1 where *: "g = g1 @ g2" "(g1, s1) \<in> set (rmatch r1 s)" "(g2, s') \<in> set (rmatch r2 s1)"
    unfolding set_rmatch_Seq by blast
  then have "(g1, s1 @ t) \<in> set (rmatch r1 (s @ t))" "(g2, s' @ t) \<in> set (rmatch r2 (s1 @ t))"
    using Seq.IH by blast+
  then show ?case unfolding set_rmatch_Seq using *(1) by blast
next
  case (Group r)
  then obtain g' where *: "g = take (length s - length s') s # g'" "(g', s') \<in> set (rmatch r s)"
    by auto
  then obtain u where u: "s = u @ s'" using rmatch_suffix by blast
  have "(g', s' @ t) \<in> set (rmatch r (s @ t))" using Group.IH *(2) by blast
  moreover have "take (length (s @ t) - length (s' @ t)) (s @ t) = take (length s - length s') s"
    using u by simp
  ultimately show ?case using *(1) by (force simp del: length_append)
next
  case (Lit a) then show ?case by (cases s) (auto split: if_splits)
next
  case Eps then show ?case by simp
next
  case (Star k) then show ?case by (auto simp: set_greedy_star)
next
  case (Plus k) then show ?case by (auto simp: set_greedy_plus)
next
  case (LazyPlus k) then show ?case by (auto simp: set_greedy_plus set_lazy_plus)
qed


lemma set_rmatch_Lit: "set (rmatch (Lit a) s) = {([], s') | s'. s = a # s'}"
  by (cases s) auto

lemma set_rmatch_Eps: "set (rmatch Eps s) = {([], s)}"
  by simp

lemma set_rmatch_word_group:
  "set (rmatch (Group (Plus Word)) s) = {([u], s') | u s'. word_token u \<and> s = u @ s'}"
  by (auto simp: set_greedy_plus in_class_eq word_token_def image_iff)

lemma set_rmatch_var_group:
  "set (rmatch (Group (Seq (Lit q) (Seq (Plus Word) Eps))) s) =
     {([q # u], s') | u s'. word_token u \<and> s = q # u @ s'}"
proof -
  have "set (rmatch (Seq (Lit q) (Seq (Plus Word) Eps)) s) = {([], s') | u s'. word_token u \<and> s = q # u @ s'}"
    unfolding set_rmatch_Seq set_rmatch_Lit set_rmatch_Eps
    by (auto simp: set_greedy_plus in_class_eq word_token_def image_iff)
  then show ?thesis
    by (auto simp: image_iff simp del: rmatch.simps(6))
qed

lemma class_pattern_sound:
  assumes "(g, s') \<in> set (rmatch class_pattern s)"
  shows "\<exists>w1 w2 w3. word_token w1 \<and> word_token w2 \<and> word_token w3
           \<and> s = class_atom_form w1 w2 w3 @ s' \<and> g = [w1, w2, ''?'' @ w3]"
  using assms
  unfolding class_pattern_def cat_def foldr.simps comp_def id_def set_rmatch_Seq
    set_rmatch_word_group set_rmatch_var_group set_rmatch_Lit set_rmatch_Eps class_atom_form_def
  by auto

lemma set_rmatch_object_group:
  "set (rmatch (Group (LazyPlus Dot)) s) =
     {([u], s') | u s'. u \<noteq> [] \<and> CHR 0x0A \<notin> set u \<and> s = u @ s'}"
  by (auto simp: set_greedy_plus set_lazy_plus in_class_eq image_iff)

lemma set_rmatch_spaces:
  "set (rmatch (Star Space) s) = {([], s') | u s'. (\<forall>c\<in>set u. isspace c) \<and> s = u @ s'}"
  by (auto simp: set_greedy_star in_class_eq image_iff)

lemma property_pattern_sound:
  assumes "(g, s') \<in> set (rmatch property_pattern s)"
  shows "\<exists>w1 w2 w3 ws ob. word_token w1 \<and> word_token w2 \<and> word_token w3
           \<and> (\<forall>c\<in>set ws. isspace c) \<and> ob \<noteq> [] \<and> CHR 0x0A \<notin> set ob
           \<and> s = property_atom_form w1 w2 w3 ws ob @ s' \<and> g = [w1, w2, ''?'' @ w3, ob]"
  using assms
  unfolding property_pattern_def cat_def foldr.simps comp_def id_def set_rmatch_Seq
    set_rmatch_word_group set_rmatch_var_group set_rmatch_Lit set_rmatch_Eps property_atom_form_def
    set_rmatch_object_group set_rmatch_spaces
  by (auto; blast)

lemma re_match_SomeD: "re_match r s = Some gs \<Longrightarrow> \<exists>s' ys. rmatch r s = (gs, s') # ys"
  unfolding re_match_def by (auto split: list.splits)

lemma re_match_None_iff: "re_match r s = None \<longleftrightarrow> rmatch r s = []"
  unfolding re_match_def by (auto split: list.splits)

lemma parse_atom_ClassD:
  assumes "parse_atom a = Inr (ClassAtom p c v)"
  shows "\<exists>w1 w2 w3 s'. word_token w1 \<and> word_token w2 \<and> word_token w3
           \<and> a = class_atom_form w1 w2 w3 @ s' \<and> p = w1 \<and> c = w2 \<and> v = ''?'' @ w3"
proof -
  from assms obtain gs where gs: "re_match class_pattern a = Some gs"
    "p = gs ! 0" "c = gs ! 1" "v = gs ! 2"
    unfolding parse_atom_def by (auto split: option.splits)
  then obtain s' ys where "rmatch class_pattern a = (gs, s') # ys"
    using re_match_SomeD by blast
  then have "(gs, s') \<in> set (rmatch class_pattern a)" by simp
  from class_pattern_sound[OF this] gs(2-4) show ?thesis by auto
qed

lemma parse_atom_PropertyD:
  assumes "parse_atom a = Inr (PropertyAtom p n s ob)"
  shows "\<exists>w1 w2 w3 ws ob0 s'. word_token w1 \<and> word_token w2 \<and> word_token w3
           \<and> (\<forall>c\<in>set ws. isspace c) \<and> ob0 \<noteq> [] \<and> CHR 0x0A \<notin> set ob0
           \<and> a = property_atom_form w1 w2 w3 ws ob0 @ s'
           \<and> p = w1 \<and> n = w2 \<and> s = ''?'' @ w3 \<and> ob = strip ob0"
proof -
  from assms obtain gs where gs: "re_match property_pattern a = Some gs"
    "p = gs ! 0" "n = gs ! 1" "s = gs ! 2" "ob = strip (gs ! 3)"
    unfolding parse_atom_def by (auto split: option.splits)
  then obtain s' ys where "rmatch property_pattern a = (gs, s') # ys"
    using re_match_SomeD by blast
  then have "(gs, s') \<in> set (rmatch property_pattern a)" by simp
  from property_pattern_sound[OF this] obtain w1 w2 w3 ws ob0 where
    *: "word_token w1" "word_token w2" "word_token w3" "\<forall>c\<in>set ws. isspace c" "ob0 \<noteq> []"
      "CHR 0x0A \<notin> set ob0" "a = property_atom_form w1 w2 w3 ws ob0 @ s'"
      "gs = [w1, w2, ''?'' @ w3, ob0]"
    by blast
  have "p = w1" "n = w2" "s = ''?'' @ w3" "ob = strip ob0"
    using gs(2-5) *(8) by simp_all
  with *(1-7) show ?thesis by blast
qed

lemma parse_atom_class_append:
  assumes "parse_atom a = Inr (ClassAtom p c v)"
  shows "parse_atom (a @ t) = Inr (ClassAtom p c v)"
proof -
  from parse_atom_ClassD[OF assms] obtain w1 w2 w3 s' where
    w: "word_token w1" "word_token w2" "word_token w3"
    and a: "a = class_atom_form w1 w2 w3 @ s'" and r: "p = w1" "c = w2" "v = ''?'' @ w3"
    by blast
  show ?thesis
    using parse_atom_class_form[OF w, of "s' @ t"] a r by (simp add: class_atom_form_def)
qed

lemma parse_atom_property_append:
  assumes "parse_atom a = Inr (PropertyAtom p n s ob)"
  shows "\<exists>ob'. parse_atom (a @ t) = Inr (PropertyAtom p n s ob')"
proof -
  from parse_atom_PropertyD[OF assms] obtain w1 w2 w3 ws ob0 s' where
    w: "word_token w1" "word_token w2" "word_token w3"
    and a: "a = property_atom_form w1 w2 w3 ws ob0 @ s'"
    and r: "p = w1" "n = w2" "s = ''?'' @ w3"
    by blast
  let ?r = "ws @ ob0 @ '')'' @ s'"
  let ?tail = "Seq (Star Space) (Seq (Group (LazyPlus Dot)) (Seq (Lit CHR '')'') Eps))"
  have a': "a = w1 @ '':'' @ w2 @ ''(?'' @ w3 @ '','' @ ?r"
    using a by (simp add: property_atom_form_def)
  have at: "a @ t = w1 @ '':'' @ w2 @ ''(?'' @ w3 @ '','' @ (?r @ t)"
    using a' by simp
  have "re_match property_pattern a \<noteq> None"
    using assms unfolding parse_atom_def by (auto split: option.splits)
  then have "rmatch property_pattern a \<noteq> []" by (simp add: re_match_None_iff)
  then have "rmatch ?tail ?r \<noteq> []"
    unfolding a' rmatch_property_pattern_head[OF w] by simp
  then obtain x xs where "rmatch ?tail ?r = x # xs" by (meson neq_Nil_conv)
  then have "(fst x, snd x) \<in> set (rmatch ?tail ?r)" by simp
  then have "(fst x, snd x @ t) \<in> set (rmatch ?tail (?r @ t))" by (rule rmatch_append)
  then have "rmatch ?tail (?r @ t) \<noteq> []" by force
  then obtain y ys where "rmatch ?tail (?r @ t) = y # ys" by (meson neq_Nil_conv)
  then have tail: "rmatch ?tail (?r @ t) = (fst y, snd y) # ys" by simp
  have "re_match property_pattern (a @ t) = Some (w1 # w2 # (''?'' @ w3) # fst y)"
    unfolding at re_match_def rmatch_property_pattern_head[OF w] tail by (simp add: case_prod_beta)
  moreover have "re_match class_pattern (a @ t) = None"
    unfolding at by (rule re_match_class_pattern_comma[OF w])
  ultimately show ?thesis
    unfolding parse_atom_def using r by simp
qed

section \<open>The scenario \<open>A:Foo(?x) -> A:hasVal(?x, 5)\<close>\<close>

lemma scenario_one_rule:
  "parse_swrl_rule ''A:Foo(?x) -> A:hasVal(?x, 5)'' = Inr ([''A:Foo(?x)''], [''A:hasVal(?x, 5)''])"
  by code_simp

lemma scenario_one_class_atom:
  "parse_atom ''A:Foo(?x)'' = Inr (ClassAtom ''A'' ''Foo'' ''?x'')"
  by code_simp

lemma scenario_one_property_atom:
  "parse_atom ''A:hasVal(?x, 5)'' = Inr (PropertyAtom ''A'' ''hasVal'' ''?x'' ''5'')"
  by code_simp

lemma scenario_one_state:
  "foldl extract_atom (reset conv)
     [(ClassAtom ''A'' ''Foo'' ''?x'', Antecedent),
      (PropertyAtom ''A'' ''hasVal'' ''?x'' ''5'', Consequent)]
   = conv\<lparr>variables := {''?x''},
          classes := [(''?x'', [\<lparr>ci_class = ''A:Foo'', ci_part = Antecedent\<rparr>])],
          properties := [\<lparr>p_subject = ''?x'', p_predicate = ''A:hasVal'',
                          p_object = ''5'', p_part = Consequent\<rparr>]\<rparr>"
  by (simp add: reset_def startswith_def)

lemma scenario_one_lines:
  \<open>fst (generate_dot conv w ''A:Foo(?x) -> A:hasVal(?x, 5)'' None) =
   Inr (str_join [CHR 0x0A]
     [''digraph SWRL_Rule {'',
      ''    rankdir=LR;'',
      ''    node [shape=box, style=rounded];'',
      [],
      ''    // Classes'',
      ''    "A:Foo" [shape=ellipse, fillcolor=lightgreen, style=filled];'',
      [],
      ''    // Variables (Instances)'',
      ''    "?x" [label="?x", fillcolor=lightblue, style="rounded,filled"];'',
      [],
      ''    // Literals'',
      ''    "5" [shape=box, style=filled, fillcolor=lightyellow];'',
      [],
      ''    // Class Assertions (rdf:type)'',
      ''    "A:Foo" -> "?x" [label="rdf:type", style=dashed];'',
      [],
      ''    // Properties'',
      ''    "?x" -> "5" [label="A:hasVal", color=blue, penwidth=2];'',
      ''}''])\<close>
proof -
  let ?atoms = "[(ClassAtom ''A'' ''Foo'' ''?x'', Antecedent),
                 (PropertyAtom ''A'' ''hasVal'' ''?x'' ''5'', Consequent)]"
  have "generate_dot conv w ''A:Foo(?x) -> A:hasVal(?x, 5)'' None =
          (Inr (create_dot_graph (foldl extract_atom (reset conv) ?atoms)),
           foldl extract_atom (reset conv) ?atoms, w)"
    unfolding generate_dot_def
    by (simp add: scenario_one_rule scenario_one_class_atom scenario_one_property_atom Let_def
          del: foldl.simps foldl_Cons)
  then show ?thesis
    unfolding scenario_one_state
    by (simp add: create_dot_graph_def create_dot_lines_def all_classes_def literals_def
          type_edges_def startswith_def class_node_def variable_node_def literal_node_def
          type_edge_def property_edge_def)
qed

text \<open>
  C1. On the rule \<open>A:Foo(?x) -> A:hasVal(?x, 5)\<close>, with no output file, the conversion
  returns (whatever the instance held before, and in every world) exactly the DOT text
  below: after the header, one class node for \<open>A:Foo\<close>, one variable node for \<open>?x\<close>,
  one literal node for \<open>5\<close>, one rdf:type edge from \<open>A:Foo\<close> to \<open>?x\<close> in the
  antecedent style (dashed only) and one property edge from \<open>?x\<close> to \<open>5\<close> labelled
  \<open>A:hasVal\<close> in the consequent style (blue, pen width 2), and nothing else.
\<close>

theorem scenario_one:
  \<open>fst (generate_dot conv w ''A:Foo(?x) -> A:hasVal(?x, 5)'' None) =
   Inr ''digraph SWRL_Rule {\<newline>    rankdir=LR;\<newline>    node [shape=box, style=rounded];\<newline>\<newline>    // Classes\<newline>    "A:Foo" [shape=ellipse, fillcolor=lightgreen, style=filled];\<newline>\<newline>    // Variables (Instances)\<newline>    "?x" [label="?x", fillcolor=lightblue, style="rounded,filled"];\<newline>\<newline>    // Literals\<newline>    "5" [shape=box, style=filled, fillcolor=lightyellow];\<newline>\<newline>    // Class Assertions (rdf:type)\<newline>    "A:Foo" -> "?x" [label="rdf:type", style=dashed];\<newline>\<newline>    // Properties\<newline>    "?x" -> "5" [label="A:hasVal", color=blue, penwidth=2];\<newline>}''\<close>
  using scenario_one_lines[of conv w] by simp

section \<open>Which atoms are rejected\<close>

lemma class_pattern_complete:
  assumes "word_token w1" "word_token w2" "word_token w3"
  shows "rmatch class_pattern (class_atom_form w1 w2 w3 @ s') \<noteq> []"
  using rmatch_class_pattern[OF assms not_word_chars(3), of s']
  by (simp add: class_atom_form_def)

lemma property_pattern_complete:
  assumes "word_token w1" "word_token w2" "word_token w3"
    "\<forall>c\<in>set ws. isspace c" "ob \<noteq> []" "CHR 0x0A \<notin> set ob"
  shows "rmatch property_pattern (property_atom_form w1 w2 w3 ws ob @ s') \<noteq> []"
proof -
  let ?tail = "Seq (Star Space) (Seq (Group (LazyPlus Dot)) (Seq (Lit CHR '')'') Eps))"
  have "([], ob @ '')'' @ s') \<in> set (rmatch (Star Space) (ws @ ob @ '')'' @ s'))"
    unfolding set_rmatch_spaces using assms(4) by blast
  moreover have "([ob], '')'' @ s') \<in> set (rmatch (Group (LazyPlus Dot)) (ob @ '')'' @ s'))"
    unfolding set_rmatch_object_group using assms(5,6) by blast
  moreover have "([], s') \<in> set (rmatch (Seq (Lit CHR '')'') Eps) ('')'' @ s'))"
    by simp
  ultimately have "([] @ [ob] @ [], s') \<in> set (rmatch ?tail (ws @ ob @ '')'' @ s'))"
    unfolding set_rmatch_Seq[of "Star Space"] set_rmatch_Seq[of "Group (LazyPlus Dot)"] by blast
  then have "rmatch ?tail (ws @ ob @ '')'' @ s') \<noteq> []" by force
  then show ?thesis
    using rmatch_property_pattern_head[OF assms(1-3), of "ws @ ob @ '')'' @ s'"]
    by (simp add: property_atom_form_def)
qed

lemma parse_atom_rejects_iff:
  "parse_atom a = Inl (UnparsableAtomError a) \<longleftrightarrow>
     rmatch class_pattern a = [] \<and> rmatch property_pattern a = []"
  unfolding parse_atom_def re_match_def by (auto split: option.splits list.splits)

lemma parse_atom_total:
  "parse_atom a = Inl (UnparsableAtomError a) \<or> (\<exists>x. parse_atom a = Inr x)"
  unfolding parse_atom_def by (auto split: option.splits)

lemma hd_takeWhile_ne: "takeWhile P xs \<noteq> [] \<Longrightarrow> hd (takeWhile P xs) = hd xs"
  by (cases xs) (auto split: if_splits)

lemma first_close_decomp:
  "\<exists>t. r @ '')'' = takeWhile (\<lambda>c. c \<noteq> CHR '')'') r @ '')'' @ t"
proof (cases "dropWhile (\<lambda>c. c \<noteq> CHR '')'') r")
  case Nil
  then have "takeWhile (\<lambda>c. c \<noteq> CHR '')'') r = r"
    by (metis append_Nil2 takeWhile_dropWhile_id)
  then show ?thesis by (metis append_Nil2)
next
  case (Cons c t')
  then have "c = CHR '')''" using hd_dropWhile[of "\<lambda>c. c \<noteq> CHR '')''" r] by auto
  then have "r = takeWhile (\<lambda>c. c \<noteq> CHR '')'') r @ CHR '')'' # t'"
    using Cons by (metis takeWhile_dropWhile_id)
  then have "r @ '')'' = takeWhile (\<lambda>c. c \<noteq> CHR '')'') r @ '')'' @ (t' @ '')'')"
    by (metis append_Cons append_Nil append_assoc)
  then show ?thesis by blast
qed

section \<open>Atoms with three or more arguments\<close>

text \<open>
  C3, as stated, fails: the trimmed atom \<open>A:f(?x, ?y, ?z)\<close>, which has three
  comma-separated arguments, is not rejected. It matches the property pattern and is
  classified as a property atom with subject \<open>?x\<close> and object \<open>?y, ?z\<close>.
\<close>

theorem three_arguments_counterexample:
  "strip ''A:f(?x, ?y, ?z)'' = ''A:f(?x, ?y, ?z)''
   \<and> parse_atom ''A:f(?x, ?y, ?z)'' = Inr (PropertyAtom ''A'' ''f'' ''?x'' ''?y, ?z'')
   \<and> parse_atom ''A:f(?x, ?y, ?z)'' \<noteq> Inl (UnparsableAtomError ''A:f(?x, ?y, ?z)'')"
  by code_simp

text \<open>
  C3, amended. An atom with three or more comma-separated arguments whose first argument
  is a variable, \<open>prefix:name(?var,a2,a3)\<close> (\<open>a3\<close> may hold further commas), is
  accepted when the text after the first comma, its leading whitespace dropped, starts
  with no close-parenthesis and has no newline before its first close-parenthesis: it is
  classified as a property atom with subject \<open>?var\<close>, whose object is that text up to
  its first close-parenthesis, trailing whitespace removed. An atom is rejected with the
  unparsable-atom error exactly when it starts with neither the class-atom form (three
  nonempty runs of word characters) nor the property-atom form (the same, then a comma,
  whitespace, a nonempty object text without newline and a close-parenthesis); every other
  atom is accepted.
\<close>

theorem three_arguments_accepted:
  "(word_token w1 \<and> word_token w2 \<and> word_token w3
      \<and> ob = takeWhile (\<lambda>c. c \<noteq> CHR '')'') (dropWhile isspace (a2 @ '','' @ a3))
      \<and> ob \<noteq> [] \<and> CHR 0x0A \<notin> set ob
    \<longrightarrow> parse_atom (w1 @ '':'' @ w2 @ ''(?'' @ w3 @ '','' @ a2 @ '','' @ a3 @ '')'')
          = Inr (PropertyAtom w1 w2 (''?'' @ w3) (rev (dropWhile isspace (rev ob)))))
   \<and> (parse_atom a = Inl (UnparsableAtomError a) \<longleftrightarrow>
        \<not> (\<exists>u1 u2 u3 s'. word_token u1 \<and> word_token u2 \<and> word_token u3
              \<and> a = class_atom_form u1 u2 u3 @ s')
        \<and> \<not> (\<exists>u1 u2 u3 us ob' s'. word_token u1 \<and> word_token u2 \<and> word_token u3
              \<and> (\<forall>c\<in>set us. isspace c) \<and> ob' \<noteq> [] \<and> CHR 0x0A \<notin> set ob'
              \<and> a = property_atom_form u1 u2 u3 us ob' @ s'))
   \<and> (parse_atom a \<noteq> Inl (UnparsableAtomError a) \<longrightarrow> (\<exists>x. parse_atom a = Inr x))"
proof (intro conjI impI)
  assume h: "word_token w1 \<and> word_token w2 \<and> word_token w3
      \<and> ob = takeWhile (\<lambda>c. c \<noteq> CHR '')'') (dropWhile isspace (a2 @ '','' @ a3))
      \<and> ob \<noteq> [] \<and> CHR 0x0A \<notin> set ob"
  define R where "R = a2 @ '','' @ a3"
  define ws where "ws = takeWhile isspace R"
  define R' where "R' = dropWhile isspace R"
  have w: "word_token w1" "word_token w2" "word_token w3" using h by blast+
  have ob: "ob = takeWhile (\<lambda>c. c \<noteq> CHR '')'') R'" "ob \<noteq> []" "CHR 0x0A \<notin> set ob"
    using h unfolding R'_def R_def by blast+
  have ws: "\<forall>c\<in>set ws. isspace c" unfolding ws_def by (auto dest: set_takeWhileD)
  have R'ne: "R' \<noteq> []" using ob(1,2) by (metis takeWhile.simps(1))
  have "hd ob = hd R'" using ob(1,2) hd_takeWhile_ne[of "\<lambda>c. c \<noteq> CHR '')''" R'] by blast
  moreover have "\<not> isspace (hd R')" using R'ne hd_dropWhile[of isspace R] unfolding R'_def by blast
  ultimately have nsp: "\<not> isspace (hd ob)" by simp
  have ncl: "CHR '')'' \<notin> set ob" unfolding ob(1) by (auto dest: set_takeWhileD)
  obtain t where t: "R' @ '')'' = ob @ '')'' @ t"
    unfolding ob(1) using first_close_decomp[of R'] by blast
  have "R = ws @ R'" unfolding ws_def R'_def by simp
  then have "R @ '')'' = ws @ ob @ '')'' @ t" using t by simp
  then have "a2 @ '','' @ a3 @ '')'' = ws @ ob @ '')'' @ t" unfolding R_def by simp
  then have "w1 @ '':'' @ w2 @ ''(?'' @ w3 @ '','' @ a2 @ '','' @ a3 @ '')''
      = w1 @ '':'' @ w2 @ ''(?'' @ w3 @ '','' @ ws @ ob @ '')'' @ t"
    by simp
  then show "parse_atom (w1 @ '':'' @ w2 @ ''(?'' @ w3 @ '','' @ a2 @ '','' @ a3 @ '')'')
          = Inr (PropertyAtom w1 w2 (''?'' @ w3) (rev (dropWhile isspace (rev ob))))"
    using parse_atom_property_form[OF w ws ob(2) nsp ncl ob(3), of t]
    by (simp only: rstrip_def)
next
  show "parse_atom a = Inl (UnparsableAtomError a) \<longleftrightarrow>
        \<not> (\<exists>u1 u2 u3 s'. word_token u1 \<and> word_token u2 \<and> word_token u3
              \<and> a = class_atom_form u1 u2 u3 @ s')
        \<and> \<not> (\<exists>u1 u2 u3 us ob' s'. word_token u1 \<and> word_token u2 \<and> word_token u3
              \<and> (\<forall>c\<in>set us. isspace c) \<and> ob' \<noteq> [] \<and> CHR 0x0A \<notin> set ob'
              \<and> a = property_atom_form u1 u2 u3 us ob' @ s')"
  proof
    assume "parse_atom a = Inl (UnparsableAtomError a)"
    then have e: "rmatch class_pattern a = []" "rmatch property_pattern a = []"
      by (simp_all add: parse_atom_rejects_iff)
    show "\<not> (\<exists>u1 u2 u3 s'. word_token u1 \<and> word_token u2 \<and> word_token u3
              \<and> a = class_atom_form u1 u2 u3 @ s')
        \<and> \<not> (\<exists>u1 u2 u3 us ob' s'. word_token u1 \<and> word_token u2 \<and> word_token u3
              \<and> (\<forall>c\<in>set us. isspace c) \<and> ob' \<noteq> [] \<and> CHR 0x0A \<notin> set ob'
              \<and> a = property_atom_form u1 u2 u3 us ob' @ s')"
      using e class_pattern_complete property_pattern_complete by blast
  next
    assume n: "\<not> (\<exists>u1 u2 u3 s'. word_token u1 \<and> word_token u2 \<and> word_token u3
              \<and> a = class_atom_form u1 u2 u3 @ s')
        \<and> \<not> (\<exists>u1 u2 u3 us ob' s'. word_token u1 \<and> word_token u2 \<and> word_token u3
              \<and> (\<forall>c\<in>set us. isspace c) \<and> ob' \<noteq> [] \<and> CHR 0x0A \<notin> set ob'
              \<and> a = property_atom_form u1 u2 u3 us ob' @ s')"
    have "rmatch class_pattern a = []"
    proof (rule ccontr)
      assume "rmatch class_pattern a \<noteq> []"
      then obtain x xs where "rmatch class_pattern a = x # xs" by (meson neq_Nil_conv)
      then have "(fst x, snd x) \<in> set (rmatch class_pattern a)" by simp
      from class_pattern_sound[OF this] n show False by blast
    qed
    moreover have "rmatch property_pattern a = []"
    proof (rule ccontr)
      assume "rmatch property_pattern a \<noteq> []"
      then obtain x xs where "rmatch property_pattern a = x # xs" by (meson neq_Nil_conv)
      then have "(fst x, snd x) \<in> set (rmatch property_pattern a)" by simp
      from property_pattern_sound[OF this] n show False by blast
    qed
    ultimately show "parse_atom a = Inl (UnparsableAtomError a)"
      by (simp add: parse_atom_rejects_iff)
  qed
next
  assume "parse_atom a \<noteq> Inl (UnparsableAtomError a)"
  then show "\<exists>x. parse_atom a = Inr x" using parse_atom_total[of a] by blast
qed

theorem three_arguments_accepted_witness:
  "parse_atom ''swrlb:add(?z, ?x, ?y)'' = Inr (PropertyAtom ''swrlb'' ''add'' ''?z'' ''?x, ?y'')
   \<and> parse_atom ''A:f(?x, g(?y) , ?z)'' = Inr (PropertyAtom ''A'' ''f'' ''?x'' ''g(?y'')
   \<and> parse_atom ''swrlb:add(?z,  ?x , ?y )'' = Inr (PropertyAtom ''swrlb'' ''add'' ''?z'' ''?x , ?y'')"
  using three_arguments_accepted[of "''swrlb''" "''add''" "''z''" "''?x, ?y''" "'' ?x''" "'' ?y''"]
    three_arguments_accepted[of "''A''" "''f''" "''x''" "''g(?y''" "'' g(?y) ''" "'' ?z''"]
    three_arguments_accepted[of "''swrlb''" "''add''" "''z''" "''?x , ?y ''" "''  ?x ''" "'' ?y ''"]
  by (simp add: word_token_def isword_def isspace_def)

section \<open>The object of a property atom\<close>

text \<open>
  C4, as stated, fails: the object captured from \<open>A:p(?x, foo(bar))\<close> is \<open>foo(bar\<close>, not
  \<open>foo(bar)\<close>. The quantifier of the object group is lazy and the pattern is not anchored
  at the end of the atom.
\<close>

theorem nested_parentheses_counterexample:
  "parse_atom ''A:p(?x, foo(bar))'' = Inr (PropertyAtom ''A'' ''p'' ''?x'' ''foo(bar'')
   \<and> parse_atom ''A:p(?x, foo(bar))'' \<noteq> Inr (PropertyAtom ''A'' ''p'' ''?x'' ''foo(bar)'')"
  by code_simp

text \<open>
  C4, amended. The object capture is lazy: for an object text that starts with no
  whitespace and holds neither a close-parenthesis nor a newline, the captured object is
  that text (trimmed), whatever follows the first close-parenthesis after it. So an object
  with nested parentheses is cut at its first close-parenthesis and the rest is ignored.
\<close>

theorem object_capture_stops_at_first_close:
  assumes "word_token w1" "word_token w2" "word_token w3" "\<forall>c\<in>set ws. isspace c"
    and "object_token ob"
  shows "parse_atom (w1 @ '':'' @ w2 @ ''(?'' @ w3 @ '','' @ ws @ ob @ '')'' @ t)
           = Inr (PropertyAtom w1 w2 (''?'' @ w3) (strip ob))"
proof -
  have ob: "ob \<noteq> []" "\<not> isspace (hd ob)" "CHR '')'' \<notin> set ob" "CHR 0x0A \<notin> set ob"
    using assms(5) unfolding object_token_def by blast+
  have "strip ob = rstrip ob"
    using ob(1,2) by (cases ob) (auto simp: strip_def lstrip_def)
  then show ?thesis
    using parse_atom_property_form[OF assms(1-4) ob, of t] by simp
qed

theorem object_capture_stops_at_first_close_witness:
  "parse_atom ''A:p(?x, g(h(1)) + 2)'' = Inr (PropertyAtom ''A'' ''p'' ''?x'' ''g(h(1'')"
proof -
  have h: "word_token ''A''" "word_token ''p''" "word_token ''x''" "\<forall>c\<in>set '' ''. isspace c"
    "object_token ''g(h(1''"
    by (simp_all add: word_token_def object_token_def isword_def isspace_def)
  have s: "strip ''g(h(1'' = ''g(h(1''" by code_simp
  show ?thesis
    using h object_capture_stops_at_first_close[OF h, of "'') + 2)''"] s by simp
qed

section \<open>Matching is anchored at the start only\<close>

text \<open>
  C10. An atom that is classified as a class atom is classified as the same class atom
  when any text is appended to it; an atom that is classified as a property atom is still
  classified as a property atom, with the same prefix, name and subject, when any text is
  appended. In particular a string that starts with the class-atom form
  \<open>prefix:ClassName(?var)\<close> is classified as that class atom whatever follows the closing
  parenthesis, and a string that starts with the property-atom form
  \<open>prefix:propertyName(?var, object)\<close>, the object starting with no whitespace and holding
  neither a close-parenthesis nor a newline, is classified as that property atom whatever
  follows the closing parenthesis.
\<close>

theorem match_anchored_at_start_only:
  "(parse_atom a = Inr (ClassAtom p c v) \<longrightarrow> parse_atom (a @ t) = Inr (ClassAtom p c v))
   \<and> (parse_atom a = Inr (PropertyAtom p n s ob)
        \<longrightarrow> (\<exists>ob'. parse_atom (a @ t) = Inr (PropertyAtom p n s ob')))
   \<and> (word_token w1 \<and> word_token w2 \<and> word_token w3
        \<longrightarrow> parse_atom (class_atom_form w1 w2 w3 @ t) =
              Inr (ClassAtom w1 w2 (''?'' @ w3)))
   \<and> (word_token w1 \<and> word_token w2 \<and> word_token w3 \<and> (\<forall>c\<in>set ws. isspace c)
        \<and> object_token ob0
        \<longrightarrow> parse_atom (property_atom_form w1 w2 w3 ws ob0 @ t) =
              Inr (PropertyAtom w1 w2 (''?'' @ w3) (strip ob0)))"
proof (intro conjI impI)
  assume "parse_atom a = Inr (ClassAtom p c v)"
  then show "parse_atom (a @ t) = Inr (ClassAtom p c v)" by (rule parse_atom_class_append)
next
  assume "parse_atom a = Inr (PropertyAtom p n s ob)"
  then show "\<exists>ob'. parse_atom (a @ t) = Inr (PropertyAtom p n s ob')"
    by (rule parse_atom_property_append)
next
  assume "word_token w1 \<and> word_token w2 \<and> word_token w3"
  then show "parse_atom (class_atom_form w1 w2 w3 @ t) = Inr (ClassAtom w1 w2 (''?'' @ w3))"
    using parse_atom_class_form[of w1 w2 w3 t] by (simp add: class_atom_form_def)
next
  assume a: "word_token w1 \<and> word_token w2 \<and> word_token w3 \<and> (\<forall>c\<in>set ws. isspace c)
        \<and> object_token ob0"
  then have ob: "ob0 \<noteq> []" "\<not> isspace (hd ob0)" "CHR '')'' \<notin> set ob0" "CHR 0x0A \<notin> set ob0"
    unfolding object_token_def by blast+
  have "strip ob0 = rstrip ob0"
    using ob(1,2) by (cases ob0) (auto simp: strip_def lstrip_def)
  then show "parse_atom (property_atom_form w1 w2 w3 ws ob0 @ t) =
              Inr (PropertyAtom w1 w2 (''?'' @ w3) (strip ob0))"
    using parse_atom_property_form[of w1 w2 w3 ws ob0 t] a ob
    by (simp add: property_atom_form_def)
qed

theorem match_anchored_at_start_only_witness:
  "parse_atom ''A:C(?x)'' = Inr (ClassAtom ''A'' ''C'' ''?x'')
   \<and> parse_atom ''A:C(?x) trailing junk'' = Inr (ClassAtom ''A'' ''C'' ''?x'')
   \<and> parse_atom ''A:p(?x, 5)'' = Inr (PropertyAtom ''A'' ''p'' ''?x'' ''5'')
   \<and> (\<exists>ob'. parse_atom ''A:p(?x, 5) trailing junk'' = Inr (PropertyAtom ''A'' ''p'' ''?x'' ob'))
   \<and> parse_atom (class_atom_form ''A'' ''C'' ''x'' @ '' trailing junk'') = Inr (ClassAtom ''A'' ''C'' ''?x'')
   \<and> parse_atom (property_atom_form ''A'' ''p'' ''x'' '' '' ''5'' @ '' trailing junk'')
        = Inr (PropertyAtom ''A'' ''p'' ''?x'' ''5'')"
proof -
  have c: "parse_atom ''A:C(?x)'' = Inr (ClassAtom ''A'' ''C'' ''?x'')" by code_simp
  have p: "parse_atom ''A:p(?x, 5)'' = Inr (PropertyAtom ''A'' ''p'' ''?x'' ''5'')" by code_simp
  have h: "word_token ''A''" "word_token ''C''" "word_token ''p''" "word_token ''x''"
    "\<forall>c\<in>set '' ''. isspace c" "object_token ''5''"
    by (simp_all add: word_token_def object_token_def isword_def isspace_def)
  have s: "strip ''5'' = ''5''" by code_simp
  show ?thesis
    using c p h s
      match_anchored_at_start_only[where a="''A:C(?x)''" and p="''A''" and c="''C''" and v="''?x''"
        and t="'' trailing junk''" and ?w1.0="''A''" and ?w2.0="''C''" and ?w3.0="''x''"]
      match_anchored_at_start_only[where a="''A:p(?x, 5)''" and p="''A''" and n="''p''" and s="''?x''"
        and ob="''5''" and t="'' trailing junk''" and ?w1.0="''A''" and ?w2.0="''p''" and ?w3.0="''x''"
        and ws="'' ''" and ?ob0.0="''5''"]
    by simp
qed

section \<open>The rule splitter\<close>

subsection \<open>Splitting at the arrow\<close>

lemma str_split_ne: "str_split sep s \<noteq> []"
  by (induction sep s rule: str_split.induct) (auto split: list.splits)

lemma arrow_simps:
  "startswith (c # cs) ''->'' \<longleftrightarrow> c = CHR ''-'' \<and> (\<exists>t. cs = CHR ''>'' # t)"
  by (cases cs) (auto simp: startswith_def)

lemma length_str_split_arrow: "length (str_split ''->'' s) = Suc (occurrences ''->'' s)"
proof (induction s rule: length_induct)
  case (1 s)
  show ?case
  proof (cases s)
    case Nil then show ?thesis by simp
  next
    case (Cons c cs)
    show ?thesis
    proof (cases "startswith (c # cs) ''->''")
      case True
      then obtain t where t: "c = CHR ''-''" "cs = CHR ''>'' # t" by (auto simp: arrow_simps)
      have "length (str_split ''->'' t) = Suc (occurrences ''->'' t)"
        using 1 Cons t by simp
      moreover have "\<not> startswith (CHR ''>'' # t) ''->''" by (simp add: arrow_simps)
      ultimately show ?thesis using Cons t True by simp
    next
      case False
      have "length (str_split ''->'' cs) = Suc (occurrences ''->'' cs)"
        using 1 Cons by simp
      then show ?thesis using Cons False str_split_ne[of "''->''" cs]
        by (auto split: list.splits)
    qed
  qed
qed

lemma str_join_Cons: "xs \<noteq> [] \<Longrightarrow> str_join sep (x # xs) = x @ sep @ str_join sep xs"
  by (cases xs) auto

lemma str_join_split: "sep \<noteq> [] \<Longrightarrow> str_join sep (str_split sep s) = s"
proof (induction sep s rule: str_split.induct)
  case (1 sep) then show ?case by simp
next
  case (2 sep c cs)
  show ?case
  proof (cases "startswith (c # cs) sep")
    case True
    then have e: "sep @ drop (length sep) (c # cs) = c # cs"
      unfolding startswith_def by (metis append_take_drop_id)
    have d: "drop (length sep) (c # cs) = drop (length sep - 1) cs"
      using 2(3) by (cases sep) auto
    have "str_split sep (c # cs) = [] # str_split sep (drop (length sep - 1) cs)"
      using True 2(3) by simp
    then have "str_join sep (str_split sep (c # cs)) =
        sep @ str_join sep (str_split sep (drop (length sep - 1) cs))"
      using str_split_ne[of sep "drop (length sep - 1) cs"] by (simp add: str_join_Cons)
    also have "\<dots> = sep @ drop (length sep - 1) cs"
      using 2(1)[OF _ 2(3)] True 2(3) by simp
    finally show ?thesis using e d by simp
  next
    case False
    then show ?thesis using 2 str_split_ne[of sep cs]
      by (cases "str_split sep cs"; cases "tl (str_split sep cs)") auto
  qed
qed

lemma str_split_two:
  assumes "length (str_split ''->'' s) = 2"
  shows "s = str_split ''->'' s ! 0 @ ''->'' @ str_split ''->'' s ! 1"
proof -
  obtain l r where lr: "str_split ''->'' s = [l, r]"
    using assms by (cases "str_split ''->'' s"; cases "tl (str_split ''->'' s)") auto
  have "str_join ''->'' (str_split ''->'' s) = s" by (rule str_join_split) simp
  then show ?thesis using lr by simp
qed

lemma greedy_star_hd: "\<exists>ys. greedy_star p t = dropWhile p t # ys"
  by (induction t) auto

lemma caret_not_space: "\<not> isspace CHR ''^''"
  by (simp add: isspace_def)

lemma dropWhile_stop: "dropWhile p s = [] \<or> \<not> p (hd (dropWhile p s))"
  by (metis hd_dropWhile)

lemma rmatch_caret_reduce:
  "rmatch caret_pattern s = rmatch (Seq (Lit CHR ''^'') (Seq (Star Space) Eps)) (dropWhile isspace s)"
proof -
  let ?K = "rmatch (Seq (Lit CHR ''^'') (Seq (Star Space) Eps))"
  have K: "\<And>c x. isspace c \<Longrightarrow> ?K (c # x) = []"
    using caret_not_space by (auto simp: rmatch_Lit_Cons simp del: rmatch.simps)
  have "rmatch caret_pattern s = concat (map ?K (greedy_star isspace s))"
    unfolding caret_pattern_def cat_def by (simp only: foldr.simps comp_def id_def rmatch_Seq_Star in_class_eq)
  also have "\<dots> = concat (map ?K (greedy_star isspace (takeWhile isspace s @ dropWhile isspace s)))"
    by simp
  also have "\<dots> = concat (map ?K (greedy_star isspace (dropWhile isspace s)))"
  proof (rule greedy_star_skip)
    show "\<And>c x. isspace c \<Longrightarrow> ?K (c # x) = []" by (rule K)
    show "\<forall>c\<in>set (takeWhile isspace s). isspace c" by (auto dest: set_takeWhileD)
  qed
  also have "\<dots> = ?K (dropWhile isspace s)"
    using greedy_star_stop[of "dropWhile isspace s" isspace] dropWhile_stop[of isspace s] by simp
  finally show ?thesis .
qed

lemma rmatch_caret_hit:
  assumes "dropWhile isspace s = CHR ''^'' # t"
  shows "\<exists>ys. rmatch caret_pattern s = ([], dropWhile isspace t) # ys"
proof -
  obtain ys where "greedy_star isspace t = dropWhile isspace t # ys"
    using greedy_star_hd by blast
  then show ?thesis
    unfolding rmatch_caret_reduce assms by (simp add: in_class_eq)
qed

lemma rmatch_caret_miss:
  assumes "\<And>t. dropWhile isspace s \<noteq> CHR ''^'' # t"
  shows "rmatch caret_pattern s = []"
proof (cases "dropWhile isspace s")
  case Nil
  then show ?thesis unfolding rmatch_caret_reduce by (simp only: rmatch_Lit_Nil)
next
  case (Cons c t)
  then have "c \<noteq> CHR ''^''" using assms by auto
  then show ?thesis unfolding rmatch_caret_reduce Cons by (simp only: rmatch_Lit_Cons if_False)
qed

lemma length_dropWhile_less:
  assumes "dropWhile p s = c # t"
  shows "length (dropWhile q t) < length s"
proof -
  have "length (dropWhile q t) \<le> length t" by (rule length_dropWhile_le)
  moreover have "length (c # t) \<le> length s" using length_dropWhile_le[of p s] assms by simp
  ultimately show ?thesis by simp
qed

lemma re_split_caret_hit:
  assumes "dropWhile isspace s = CHR ''^'' # t"
  shows "re_split caret_pattern s = [] # re_split caret_pattern (dropWhile isspace t)"
proof -
  obtain ys where "rmatch caret_pattern s = ([], dropWhile isspace t) # ys"
    using rmatch_caret_hit[OF assms] by blast
  then show ?thesis
    using length_dropWhile_less[OF assms, of isspace]
    by (subst re_split.simps) simp
qed

lemma re_split_caret_miss:
  assumes "\<And>t. dropWhile isspace s \<noteq> CHR ''^'' # t"
  shows "re_split caret_pattern s =
    (case s of [] \<Rightarrow> [[]]
     | c # cs \<Rightarrow> (case re_split caret_pattern cs of [] \<Rightarrow> [[c]] | p # ps \<Rightarrow> (c # p) # ps))"
  using rmatch_caret_miss[OF assms] by (subst re_split.simps) simp

subsection \<open>Trimming and splitting at the carets\<close>

lemma rstrip_Nil_iff: "rstrip x = [] \<longleftrightarrow> (\<forall>c\<in>set x. isspace c)"
  unfolding rstrip_def by (auto simp: dropWhile_eq_Nil_conv)

lemma rstrip_Cons:
  "rstrip (c # x) = (if rstrip x = [] \<and> isspace c then [] else c # rstrip x)"
  unfolding rstrip_def by (auto simp: dropWhile_append dropWhile_eq_Nil_conv)

lemma strip_commute: "strip s = lstrip (rstrip s)"
proof (induction s)
  case Nil
  show ?case by (simp add: strip_def lstrip_def rstrip_def)
next
  case (Cons c s)
  show ?case
  proof (cases "isspace c")
    case True
    have "strip (c # s) = strip s" using True by (simp add: strip_def lstrip_def)
    moreover have "lstrip (rstrip (c # s)) = lstrip (rstrip s)"
      using True by (simp add: rstrip_Cons lstrip_def)
    ultimately show ?thesis using Cons by simp
  next
    case False
    then show ?thesis by (simp add: strip_def lstrip_def rstrip_Cons)
  qed
qed

lemma rstrip_eq_strip_eq: "rstrip q = rstrip p \<Longrightarrow> strip q = strip p"
  by (simp add: strip_commute)

lemma rstrip_Cons_cong: "rstrip q = rstrip p \<Longrightarrow> rstrip (c # q) = rstrip (c # p)"
  by (simp add: rstrip_Cons)

lemma strip_leading: "\<forall>c\<in>set ws. isspace c \<Longrightarrow> strip (ws @ x) = strip x"
  unfolding strip_def lstrip_def by (simp add: dropWhile_append)

lemma rstrip_trailing: "\<forall>c\<in>set ws. isspace c \<Longrightarrow> rstrip (x @ ws) = rstrip x"
  unfolding rstrip_def by (simp add: dropWhile_append)

lemma split_char_ne: "split_char d s \<noteq> []"
  by (induction s) (auto split: list.splits)

lemma split_char_append_clean:
  "d \<notin> set u \<Longrightarrow> split_char d (u @ t) = (u @ hd (split_char d t)) # tl (split_char d t)"
proof (induction u)
  case Nil then show ?case using split_char_ne[of d t] by simp
next
  case (Cons c u) then show ?case by auto
qed

lemma split_char_leading_space:
  assumes "\<forall>c\<in>set ws. isspace c" "\<not> isspace d"
  shows "map strip (split_char d (ws @ t)) = map strip (split_char d t)"
proof -
  have "d \<notin> set ws" using assms by auto
  then have "split_char d (ws @ t) = (ws @ hd (split_char d t)) # tl (split_char d t)"
    by (rule split_char_append_clean)
  then show ?thesis
    using strip_leading[OF assms(1)] split_char_ne[of d t] by (cases "split_char d t") auto
qed

lemma split_char_trailing_space:
  assumes "\<forall>c\<in>set ws. isspace c" "\<not> isspace d"
  shows "map strip (split_char d (t @ ws)) = map strip (split_char d t)
         \<and> rstrip (hd (split_char d (t @ ws))) = rstrip (hd (split_char d t))"
proof (induction t)
  case Nil
  have "d \<notin> set ws" using assms by auto
  then have "split_char d (ws @ []) = (ws @ hd (split_char d [])) # tl (split_char d [])"
    by (rule split_char_append_clean)
  then have "split_char d ws = [ws]" by simp
  moreover have "rstrip ws = []" using assms(1) by (simp add: rstrip_Nil_iff)
  ultimately show ?case using rstrip_eq_strip_eq[of ws "[]"] by (simp add: rstrip_def)
next
  case (Cons c t)
  show ?case
  proof (cases "c = d")
    case True then show ?thesis using Cons by (simp add: rstrip_def)
  next
    case False
    obtain p ps where p: "split_char d t = p # ps"
      using split_char_ne[of d t] by (cases "split_char d t") auto
    obtain q qs where q: "split_char d (t @ ws) = q # qs"
      using split_char_ne[of d "t @ ws"] by (cases "split_char d (t @ ws)") auto
    have r: "rstrip q = rstrip p" and m: "map strip qs = map strip ps" using Cons p q by auto
    have r': "rstrip (c # q) = rstrip (c # p)" using r by (rule rstrip_Cons_cong)
    then have "strip (c # q) = strip (c # p)" by (rule rstrip_eq_strip_eq)
    then show ?thesis using False p q m r' by simp
  qed
qed

lemma lstrip_decomp: "\<exists>ws. (\<forall>c\<in>set ws. isspace c) \<and> s = ws @ lstrip s"
  unfolding lstrip_def
  by (intro exI[of _ "takeWhile isspace s"]) (auto dest: set_takeWhileD)

lemma rstrip_decomp: "\<exists>ws. (\<forall>c\<in>set ws. isspace c) \<and> s = rstrip s @ ws"
proof -
  have "rev s = takeWhile isspace (rev s) @ dropWhile isspace (rev s)" by simp
  then have "rev (rev s) = rev (takeWhile isspace (rev s) @ dropWhile isspace (rev s))"
    by simp
  then have "s = rev (dropWhile isspace (rev s)) @ rev (takeWhile isspace (rev s))"
    by (simp only: rev_append rev_rev_ident)
  moreover have "\<forall>c\<in>set (rev (takeWhile isspace (rev s))). isspace c"
    by (auto dest: set_takeWhileD)
  ultimately show ?thesis unfolding rstrip_def by blast
qed

lemma split_char_strip:
  assumes "\<not> isspace d"
  shows "map strip (split_char d (strip s)) = map strip (split_char d s)"
proof -
  obtain ws1 where ws1: "\<forall>c\<in>set ws1. isspace c" "s = ws1 @ lstrip s"
    using lstrip_decomp by blast
  obtain ws2 where ws2: "\<forall>c\<in>set ws2. isspace c" "lstrip s = rstrip (lstrip s) @ ws2"
    using rstrip_decomp by blast
  have "map strip (split_char d s) = map strip (split_char d (lstrip s))"
    using split_char_leading_space[OF ws1(1) assms, of "lstrip s"] ws1(2) by simp
  also have "\<dots> = map strip (split_char d (strip s))"
    using split_char_trailing_space[OF ws2(1) assms, of "rstrip (lstrip s)"] ws2(2)
    by (simp add: strip_def)
  finally show ?thesis by simp
qed

lemma re_split_caret_ne: "re_split caret_pattern s \<noteq> []"
  by (subst re_split.simps) (auto split: list.splits)

lemma caret_split_refines:
  "rstrip (hd (re_split caret_pattern s)) = rstrip (hd (split_char CHR ''^'' s))
   \<and> map strip (tl (re_split caret_pattern s)) = map strip (tl (split_char CHR ''^'' s))"
proof (induction s rule: length_induct)
  case (1 s)
  show ?case
  proof (cases "\<exists>t. dropWhile isspace s = CHR ''^'' # t")
    case True
    then obtain t where t: "dropWhile isspace s = CHR ''^'' # t" by blast
    let ?ws = "takeWhile isspace s"
    let ?t' = "dropWhile isspace t"
    have s: "s = ?ws @ CHR ''^'' # t" using t by (metis takeWhile_dropWhile_id)
    have ws: "\<forall>c\<in>set ?ws. isspace c" by (auto dest: set_takeWhileD)
    have "CHR ''^'' \<notin> set ?ws" using ws caret_not_space by auto
    then have "split_char CHR ''^'' (?ws @ CHR ''^'' # t) =
        (?ws @ hd (split_char CHR ''^'' (CHR ''^'' # t))) # tl (split_char CHR ''^'' (CHR ''^'' # t))"
      by (rule split_char_append_clean)
    then have sp: "split_char CHR ''^'' s = ?ws # split_char CHR ''^'' t"
      using s by simp
    have rs: "re_split caret_pattern s = [] # re_split caret_pattern ?t'"
      by (rule re_split_caret_hit[OF t])
    have "length ?t' < length s" by (rule length_dropWhile_less[OF t])
    then have IH: "rstrip (hd (re_split caret_pattern ?t')) = rstrip (hd (split_char CHR ''^'' ?t'))
      \<and> map strip (tl (re_split caret_pattern ?t')) = map strip (tl (split_char CHR ''^'' ?t'))"
      using 1 by blast
    have "map strip (re_split caret_pattern ?t') = map strip (split_char CHR ''^'' ?t')"
    proof -
      obtain q qs where q: "re_split caret_pattern ?t' = q # qs"
        using re_split_caret_ne[of ?t'] by (cases "re_split caret_pattern ?t'") auto
      obtain p ps where p: "split_char CHR ''^'' ?t' = p # ps"
        using split_char_ne[of "CHR ''^''" ?t'] by (cases "split_char CHR ''^'' ?t'") auto
      have "rstrip q = rstrip p" using IH q p by simp
      then have "strip q = strip p" by (rule rstrip_eq_strip_eq)
      then show ?thesis using IH q p by simp
    qed
    also have "\<dots> = map strip (split_char CHR ''^'' (takeWhile isspace t @ ?t'))"
      by (rule split_char_leading_space[symmetric]) (auto dest: set_takeWhileD simp: caret_not_space)
    finally have "map strip (re_split caret_pattern ?t') = map strip (split_char CHR ''^'' t)"
      by simp
    moreover have "rstrip ?ws = []" using ws by (simp add: rstrip_Nil_iff)
    ultimately show ?thesis using sp rs by (simp add: rstrip_def)
  next
    case False
    then have miss: "\<And>t. dropWhile isspace s \<noteq> CHR ''^'' # t" by blast
    show ?thesis
    proof (cases s)
      case Nil
      then show ?thesis using re_split_caret_miss[OF miss] by simp
    next
      case (Cons c cs)
      have "c \<noteq> CHR ''^''" using miss[of cs] Cons caret_not_space by auto
      obtain q qs where q: "re_split caret_pattern cs = q # qs"
        using re_split_caret_ne[of cs] by (cases "re_split caret_pattern cs") auto
      obtain p ps where p: "split_char CHR ''^'' cs = p # ps"
        using split_char_ne[of "CHR ''^''" cs] by (cases "split_char CHR ''^'' cs") auto
      have IH: "rstrip q = rstrip p" "map strip qs = map strip ps"
        using 1 Cons q p by auto
      have "re_split caret_pattern s = (c # q) # qs"
        using re_split_caret_miss[OF miss] Cons q by simp
      moreover have "split_char CHR ''^'' s = (c # p) # ps"
        using Cons p \<open>c \<noteq> CHR ''^''\<close> by simp
      moreover have "rstrip (c # q) = rstrip (c # p)" using IH(1) by (rule rstrip_Cons_cong)
      ultimately show ?thesis using IH(2) by simp
    qed
  qed
qed

lemma caret_split_atoms:
  "map strip (re_split caret_pattern (strip s)) = map strip (split_char CHR ''^'' s)"
proof -
  let ?s = "strip s"
  obtain q qs where q: "re_split caret_pattern ?s = q # qs"
    using re_split_caret_ne[of ?s] by (cases "re_split caret_pattern ?s") auto
  obtain p ps where p: "split_char CHR ''^'' ?s = p # ps"
    using split_char_ne[of "CHR ''^''" ?s] by (cases "split_char CHR ''^'' ?s") auto
  have r: "rstrip q = rstrip p" and m: "map strip qs = map strip ps"
    using caret_split_refines[of ?s] q p by auto
  have "strip q = strip p" using r by (rule rstrip_eq_strip_eq)
  then have "map strip (re_split caret_pattern ?s) = map strip (split_char CHR ''^'' ?s)"
    using q p m by simp
  then show ?thesis using split_char_strip[OF caret_not_space, of s] by simp
qed

lemma parse_swrl_rule_spec:
  "parse_swrl_rule rule =
     (if occurrences ''->'' rule = 1
      then Inr (map strip (split_char CHR ''^'' (str_split ''->'' rule ! 0)),
                map strip (split_char CHR ''^'' (str_split ''->'' rule ! 1)))
      else Inl MalformedRuleError)"
  unfolding parse_swrl_rule_def Let_def
  by (simp add: length_str_split_arrow caret_split_atoms)

lemma trim_eq_strip: "trim = strip"
  by (rule ext) (simp add: trim_def strip_def lstrip_def rstrip_def)

lemma str_split_no_arrow: "occurrences ''->'' s = 0 \<Longrightarrow> str_split ''->'' s = [s]"
proof (induction s)
  case Nil then show ?case by simp
next
  case (Cons c cs)
  then have "\<not> startswith (c # cs) ''->''" "occurrences ''->'' cs = 0"
    by (auto split: if_splits)
  then show ?case using Cons.IH by simp
qed

lemma str_split_arrow_append:
  "occurrences ''->'' l = 0 \<Longrightarrow> str_split ''->'' (l @ ''->'' @ r) = l # str_split ''->'' r"
proof (induction l)
  case Nil
  show ?case by (simp add: startswith_def)
next
  case (Cons c l)
  then have n: "\<not> startswith (c # l) ''->''" and o: "occurrences ''->'' l = 0"
    by (auto split: if_splits)
  have "\<not> startswith (c # l @ ''->'' @ r) ''->''"
    using n by (cases l) (auto simp: startswith_def)
  then show ?case using Cons.IH[OF o] by simp
qed

lemma MalformedRuleError_text:
  "MalformedRuleError = ValueError ''Invalid SWRL rule: missing '->' separator''"
  by (simp add: MalformedRuleError_def)

text \<open>
  C2. A rule in which the separator \<open>->\<close> occurs zero times or more than once is refused
  with the malformed-rule error, by the splitter and by the conversion. A rule in which it
  occurs exactly once is \<open>l -> r\<close> for some \<open>l\<close> and \<open>r\<close>, and the splitter returns the
  pieces of \<open>l\<close> between its carets, each trimmed, in their order, and then those of
  \<open>r\<close>; that is its result on \<open>l -> r\<close> for all \<open>l\<close> and \<open>r\<close> without \<open>->\<close>.
\<close>

theorem rule_splitter:
  "(occurrences ''->'' rule \<noteq> 1 \<longrightarrow>
      parse_swrl_rule rule = Inl (ValueError ''Invalid SWRL rule: missing '->' separator'')
      \<and> fst (generate_dot conv w rule out)
          = Inl (ValueError ''Invalid SWRL rule: missing '->' separator''))
   \<and> (occurrences ''->'' rule = 1 \<longrightarrow>
        (\<exists>l r. rule = l @ ''->'' @ r
           \<and> parse_swrl_rule rule =
               Inr (map trim (split_char CHR ''^'' l), map trim (split_char CHR ''^'' r))))
   \<and> (occurrences ''->'' l = 0 \<and> occurrences ''->'' r = 0 \<longrightarrow>
        parse_swrl_rule (l @ ''->'' @ r) =
          Inr (map trim (split_char CHR ''^'' l), map trim (split_char CHR ''^'' r)))"
proof (intro conjI impI)
  assume n: "occurrences ''->'' rule \<noteq> 1"
  then show p: "parse_swrl_rule rule = Inl (ValueError ''Invalid SWRL rule: missing '->' separator'')"
    by (simp add: parse_swrl_rule_spec MalformedRuleError_text)
  show "fst (generate_dot conv w rule out) = Inl (ValueError ''Invalid SWRL rule: missing '->' separator'')"
    unfolding generate_dot_def Let_def p by simp
next
  assume o: "occurrences ''->'' rule = 1"
  then have "length (str_split ''->'' rule) = 2" by (simp add: length_str_split_arrow)
  then have "rule = str_split ''->'' rule ! 0 @ ''->'' @ str_split ''->'' rule ! 1"
    by (rule str_split_two)
  moreover have "parse_swrl_rule rule =
      Inr (map trim (split_char CHR ''^'' (str_split ''->'' rule ! 0)),
           map trim (split_char CHR ''^'' (str_split ''->'' rule ! 1)))"
    using o by (simp add: parse_swrl_rule_spec trim_eq_strip)
  ultimately show "\<exists>l r. rule = l @ ''->'' @ r
           \<and> parse_swrl_rule rule =
               Inr (map trim (split_char CHR ''^'' l), map trim (split_char CHR ''^'' r))"
    by blast
next
  assume "occurrences ''->'' l = 0 \<and> occurrences ''->'' r = 0"
  then have s: "str_split ''->'' (l @ ''->'' @ r) = [l, r]"
    using str_split_arrow_append[of l r] str_split_no_arrow[of r] by simp
  then have "length (str_split ''->'' (l @ ''->'' @ r)) = 2" by simp
  then have "occurrences ''->'' (l @ ''->'' @ r) = 1" by (simp add: length_str_split_arrow)
  then show "parse_swrl_rule (l @ ''->'' @ r) =
          Inr (map trim (split_char CHR ''^'' l), map trim (split_char CHR ''^'' r))"
    using s by (simp add: parse_swrl_rule_spec trim_eq_strip)
qed

theorem rule_splitter_witness:
  "parse_swrl_rule ''A:B(?x) ^ A:C(?x)'' = Inl (ValueError ''Invalid SWRL rule: missing '->' separator'')
   \<and> parse_swrl_rule ''A:B(?x) -> A:C(?x) -> A:D(?x)''
        = Inl (ValueError ''Invalid SWRL rule: missing '->' separator'')
   \<and> parse_swrl_rule ''  A:B(?x) ^A:p(?x, ?y)  ^  A:B(?y)->  A:C(?x)^ A:D(?y) ''
        = Inr ([''A:B(?x)'', ''A:p(?x, ?y)'', ''A:B(?y)''], [''A:C(?x)'', ''A:D(?y)''])"
  using rule_splitter[of "''A:B(?x) ^ A:C(?x)''"]
    rule_splitter[of "''A:B(?x) -> A:C(?x) -> A:D(?x)''"]
    rule_splitter[of _ _ _ _ "''  A:B(?x) ^A:p(?x, ?y)  ^  A:B(?y)''" "''  A:C(?x)^ A:D(?y) ''"]
  by (simp add: startswith_def trim_def isspace_def)

section \<open>A side without atoms\<close>

lemma parse_atom_Inl: "parse_atom a = Inl e \<Longrightarrow> e = UnparsableAtomError a"
  unfolding parse_atom_def by (auto split: option.splits)

lemma parse_atoms_Inl:
  "parse_atoms pt as = Inl e \<Longrightarrow> \<exists>a\<in>set as. e = UnparsableAtomError a"
  by (induction as arbitrary: e) (auto split: sum.splits dest: parse_atom_Inl)

lemma parse_atoms_fails:
  "a \<in> set as \<Longrightarrow> parse_atom a = Inl e \<Longrightarrow> \<exists>e'. parse_atoms pt as = Inl e'"
  by (induction as) (auto split: sum.splits)

lemma parse_atom_empty: "parse_atom [] = Inl (ValueError ''Cannot parse atom: '')"
  by code_simp

lemma UnparsableAtomError_text: "UnparsableAtomError a = ValueError (''Cannot parse atom: '' @ a)"
  by (simp add: UnparsableAtomError_def)

lemma generate_dot_bad_atom:
  assumes "parse_swrl_rule rule = Inr (ants, cons)" "a \<in> set (ants @ cons)" "parse_atom a = Inl e"
  shows "\<exists>b\<in>set (ants @ cons). fst (generate_dot conv w rule out) = Inl (UnparsableAtomError b)"
proof (cases "parse_atoms Antecedent ants")
  case (Inl e1)
  then obtain b where "b \<in> set ants" "e1 = UnparsableAtomError b" using parse_atoms_Inl by blast
  then show ?thesis using Inl assms(1) unfolding generate_dot_def Let_def by auto
next
  case (Inr x)
  then have "a \<notin> set ants" using parse_atoms_fails[of a ants e Antecedent] assms(3) by auto
  then have "a \<in> set cons" using assms(2) by simp
  then obtain e2 where e2: "parse_atoms Consequent cons = Inl e2"
    using parse_atoms_fails assms(3) by blast
  then obtain b where "b \<in> set cons" "e2 = UnparsableAtomError b" using parse_atoms_Inl by blast
  then show ?thesis using Inr e2 assms(1) unfolding generate_dot_def Let_def by auto
qed

lemma split_char_clean: "d \<notin> set u \<Longrightarrow> split_char d u = [u]"
  using split_char_append_clean[of d u "[]"] by simp

lemma trim_blank:
  assumes "\<forall>c\<in>set s. isspace c"
  shows "trim s = []"
proof -
  have d: "dropWhile isspace s = []" using assms by (simp add: dropWhile_eq_Nil_conv)
  show ?thesis unfolding trim_def Let_def d by simp
qed

lemma atoms_of_blank:
  assumes "\<forall>c\<in>set s. isspace c"
  shows "map trim (split_char CHR ''^'' s) = [[]]"
proof -
  have "CHR ''^'' \<notin> set s" using assms caret_not_space by auto
  then show ?thesis using split_char_clean trim_blank[OF assms] by simp
qed

lemma split_char_two_pieces: "tl (split_char d (u @ d # v)) \<noteq> []"
proof (induction u)
  case Nil
  show ?case using split_char_ne[of d v] by simp
next
  case (Cons a u)
  show ?case
  proof (cases "a = d")
    case True
    then show ?thesis using split_char_ne[of d "u @ d # v"] by simp
  next
    case False
    obtain p ps where p: "split_char d (u @ d # v) = p # ps"
      using split_char_ne[of d "u @ d # v"] by (cases "split_char d (u @ d # v)") auto
    then have "ps \<noteq> []" using Cons by simp
    then show ?thesis using False p by simp
  qed
qed

lemma last_split_char_append:
  "last (split_char d (u @ d # v)) = last (split_char d v)"
proof (induction u)
  case Nil
  show ?case using split_char_ne[of d v] by simp
next
  case (Cons a u)
  show ?case
  proof (cases "a = d")
    case True
    then show ?thesis using Cons split_char_ne[of d "u @ d # v"] by simp
  next
    case False
    obtain p ps where p: "split_char d (u @ d # v) = p # ps"
      using split_char_ne[of d "u @ d # v"] by (cases "split_char d (u @ d # v)") auto
    then have "ps \<noteq> []" using split_char_two_pieces[of d u v] by simp
    then show ?thesis using False p Cons by simp
  qed
qed

lemma atoms_of_trailing_caret:
  assumes "\<forall>c\<in>set ws. isspace c"
  shows "[] \<in> set (map trim (split_char CHR ''^'' (s @ ''^'' @ ws)))"
proof -
  have "CHR ''^'' \<notin> set ws" using assms caret_not_space by auto
  then have "last (split_char CHR ''^'' (s @ CHR ''^'' # ws)) = ws"
    by (simp add: last_split_char_append split_char_clean)
  then have "ws \<in> set (split_char CHR ''^'' (s @ ''^'' @ ws))"
    using last_in_set[OF split_char_ne[of "CHR ''^''" "s @ ''^'' @ ws"]] by simp
  then have "trim ws \<in> set (map trim (split_char CHR ''^'' (s @ ''^'' @ ws)))" by simp
  then show ?thesis using trim_blank[OF assms] by simp
qed

lemma parse_swrl_rule_one_arrow:
  assumes "occurrences ''->'' l = 0" "occurrences ''->'' r = 0"
  shows "parse_swrl_rule (l @ ''->'' @ r) =
          Inr (map trim (split_char CHR ''^'' l), map trim (split_char CHR ''^'' r))"
proof -
  have s: "str_split ''->'' (l @ ''->'' @ r) = [l, r]"
    using str_split_arrow_append[of l r] str_split_no_arrow[of r] assms by simp
  then have "length (str_split ''->'' (l @ ''->'' @ r)) = 2" by simp
  then have "occurrences ''->'' (l @ ''->'' @ r) = 1" by (simp add: length_str_split_arrow)
  then show ?thesis using s by (simp add: parse_swrl_rule_spec trim_eq_strip)
qed

text \<open>
  C9. Let \<open>l -> r\<close> be a rule whose sides hold no \<open>->\<close>. When the antecedent side \<open>l\<close>
  is empty or whitespace only, the conversion raises the unparsable-atom error for the
  empty atom. When the consequent side is empty or whitespace only, or one of the sides
  ends with a caret followed by whitespace only, the splitter succeeds, the empty string
  is among the atoms it returns, and the conversion raises the unparsable-atom error for
  one of the atoms. The empty atom matches neither pattern: \<open>parse_atom\<close> refuses it.
\<close>

theorem empty_side_unparsable:
  "(occurrences ''->'' l = 0 \<and> occurrences ''->'' r = 0 \<and> (\<forall>c\<in>set l. isspace c)
      \<longrightarrow> fst (generate_dot conv w (l @ ''->'' @ r) out) = Inl (ValueError ''Cannot parse atom: ''))
   \<and> (occurrences ''->'' l = 0 \<and> occurrences ''->'' r = 0
        \<and> ((\<forall>c\<in>set r. isspace c)
            \<or> (\<exists>l' ws. (\<forall>c\<in>set ws. isspace c) \<and> l = l' @ ''^'' @ ws)
            \<or> (\<exists>r' ws. (\<forall>c\<in>set ws. isspace c) \<and> r = r' @ ''^'' @ ws))
      \<longrightarrow> (\<exists>ants cons. parse_swrl_rule (l @ ''->'' @ r) = Inr (ants, cons)
             \<and> [] \<in> set (ants @ cons)
             \<and> (\<exists>a\<in>set (ants @ cons).
                   fst (generate_dot conv w (l @ ''->'' @ r) out)
                     = Inl (ValueError (''Cannot parse atom: '' @ a)))))
   \<and> parse_atom [] = Inl (ValueError ''Cannot parse atom: '')"
proof (intro conjI impI)
  assume h: "occurrences ''->'' l = 0 \<and> occurrences ''->'' r = 0 \<and> (\<forall>c\<in>set l. isspace c)"
  then have p: "parse_swrl_rule (l @ ''->'' @ r) = Inr ([[]], map trim (split_char CHR ''^'' r))"
    using parse_swrl_rule_one_arrow[of l r] atoms_of_blank[of l] by simp
  show "fst (generate_dot conv w (l @ ''->'' @ r) out) = Inl (ValueError ''Cannot parse atom: '')"
    unfolding generate_dot_def Let_def p by (simp add: parse_atom_empty)
next
  assume h: "occurrences ''->'' l = 0 \<and> occurrences ''->'' r = 0
        \<and> ((\<forall>c\<in>set r. isspace c)
            \<or> (\<exists>l' ws. (\<forall>c\<in>set ws. isspace c) \<and> l = l' @ ''^'' @ ws)
            \<or> (\<exists>r' ws. (\<forall>c\<in>set ws. isspace c) \<and> r = r' @ ''^'' @ ws))"
  let ?ants = "map trim (split_char CHR ''^'' l)"
  let ?cons = "map trim (split_char CHR ''^'' r)"
  have p: "parse_swrl_rule (l @ ''->'' @ r) = Inr (?ants, ?cons)"
    using h parse_swrl_rule_one_arrow[of l r] by blast
  have e: "[] \<in> set (?ants @ ?cons)"
  proof -
    consider "\<forall>c\<in>set r. isspace c"
      | l' ws where "\<forall>c\<in>set ws. isspace c" "l = l' @ ''^'' @ ws"
      | r' ws where "\<forall>c\<in>set ws. isspace c" "r = r' @ ''^'' @ ws"
      using h by blast
    then show ?thesis
    proof cases
      case 1 then show ?thesis using atoms_of_blank[of r] by simp
    next
      case 2 then show ?thesis using atoms_of_trailing_caret[of ws l'] by simp
    next
      case 3 then show ?thesis using atoms_of_trailing_caret[of ws r'] by simp
    qed
  qed
  have "\<exists>b\<in>set (?ants @ ?cons). fst (generate_dot conv w (l @ ''->'' @ r) out) = Inl (UnparsableAtomError b)"
    by (rule generate_dot_bad_atom[OF p e parse_atom_empty])
  then show "\<exists>ants cons. parse_swrl_rule (l @ ''->'' @ r) = Inr (ants, cons)
             \<and> [] \<in> set (ants @ cons)
             \<and> (\<exists>a\<in>set (ants @ cons).
                   fst (generate_dot conv w (l @ ''->'' @ r) out)
                     = Inl (ValueError (''Cannot parse atom: '' @ a)))"
    using p e unfolding UnparsableAtomError_text by blast
next
  show "parse_atom [] = Inl (ValueError ''Cannot parse atom: '')" by (rule parse_atom_empty)
qed

theorem empty_side_unparsable_witness:
  "fst (generate_dot init \<lparr>files = Map.empty, unwritable = {}, stdout = []\<rparr> ''-> A:C(?x)'' None)
     = Inl (ValueError ''Cannot parse atom: '')
   \<and> fst (generate_dot init \<lparr>files = Map.empty, unwritable = {}, stdout = []\<rparr> ''   -> A:C(?x)'' (Some ''out.dot''))
     = Inl (ValueError ''Cannot parse atom: '')"
  using empty_side_unparsable[of "[]" "'' A:C(?x)''" init "\<lparr>files = Map.empty, unwritable = {}, stdout = []\<rparr>" None]
    empty_side_unparsable[of "''   ''" "'' A:C(?x)''" init "\<lparr>files = Map.empty, unwritable = {}, stdout = []\<rparr>" "Some ''out.dot''"]
  by (simp add: startswith_def isspace_def)

section \<open>A call does not depend on earlier calls\<close>

















section \<open>The file is written after the text is complete\<close>



end
